theory Spec2Isabelle
  imports Main "HOL-Library.AList" "HOL-Library.Sublist"
begin

section \<open>Configuration (config module)\<close>

definition baseUrl :: string where
  "baseUrl = ''https://ftp.ncbi.nlm.nih.gov/pubmed/baseline''"

definition CONCURRENT_DOWNLOADS :: nat where
  "CONCURRENT_DOWNLOADS = 10"

definition CONCURRENT_VERIFICATIONS :: nat where
  "CONCURRENT_VERIFICATIONS = 5"

definition MAX_RETRIES :: nat where
  "MAX_RETRIES = 3"

section \<open>The task record (storage module)\<close>

text \<open>
  The type \<^verbatim>\<open>DownloadTask\<close> of the storage module. Its \<^verbatim>\<open>status\<close> is a union of five
  string literals; the optional fields \<^verbatim>\<open>md5\<close> and \<^verbatim>\<open>progress\<close> are options, and
  \<^verbatim>\<open>progress\<close> is the pair (bytes, total).
\<close>

datatype status = Pending | Downloading | Downloaded | Failed | Verified

record DownloadTask =
  filename :: string
  url :: string
  md5 :: "string option"
  status :: status
  attempts :: nat
  progress :: "(int \<times> int) option"

section \<open>Reconciliation (download module)\<close>

text \<open>
  \<^verbatim>\<open>createTask(filename, status = 'pending')\<close>: the caller that omits the status passes
  \<^const>\<open>Pending\<close>.
\<close>

definition createTask :: "string \<Rightarrow> status \<Rightarrow> DownloadTask" where
  "createTask f st =
     \<lparr>filename = f, url = baseUrl @ ''/'' @ f, md5 = None, status = st, attempts = 0,
      progress = None\<rparr>"

text \<open>
  The task list \<^verbatim>\<open>main\<close> builds from the two sets. A JavaScript \<^verbatim>\<open>Set\<close> is iterated in
  insertion order, so each set is the list of its elements in that order; \<^verbatim>\<open>has\<close> is
  membership.
\<close>

definition main_tasks :: "string list \<Rightarrow> string list \<Rightarrow> DownloadTask list" where
  "main_tasks remoteFiles localFiles =
     (let missingFiles = filter (\<lambda>f. f \<notin> set localFiles) remoteFiles;
          tasks1 = (if length missingFiles > 0
                    then map (\<lambda>f. createTask f Pending) missingFiles else []);
          existingFiles = filter (\<lambda>f. f \<in> set localFiles) remoteFiles;
          tasks2 = (if length existingFiles > 0
                    then tasks1 @ map (\<lambda>f. createTask f Downloaded) existingFiles else tasks1)
      in tasks2)"

lemma main_tasks_eq:
  "main_tasks r l =
     map (\<lambda>f. createTask f Pending) (filter (\<lambda>f. f \<notin> set l) r) @
     map (\<lambda>f. createTask f Downloaded) (filter (\<lambda>f. f \<in> set l) r)"
  by (simp add: main_tasks_def Let_def)

lemma main_tasks_attempts: "t \<in> set (main_tasks r l) \<Longrightarrow> attempts t = 0"
  by (auto simp: main_tasks_eq createTask_def)

lemma main_tasks_progress: "t \<in> set (main_tasks r l) \<Longrightarrow> progress t = None"
  by (auto simp: main_tasks_eq createTask_def)

lemma main_tasks_filenames:
  "set (map filename (main_tasks r l)) = set r"
  by (auto simp: main_tasks_eq createTask_def image_iff)

lemma main_tasks_distinct:
  assumes "distinct r"
  shows "distinct (map filename (main_tasks r l))"
proof -
  have a: "map (filename \<circ> (\<lambda>f. createTask f st)) fs = fs" for st fs
    by (induction fs) (simp_all add: createTask_def)
  have "map filename (main_tasks r l) =
      filter (\<lambda>f. f \<notin> set l) r @ filter (\<lambda>f. f \<in> set l) r"
    by (simp add: main_tasks_eq a)
  with assms show ?thesis
    by auto
qed

text \<open>
  Claim C6. Every remote filename that is absent locally gets a task with status Pending,
  every remote filename that is present locally gets a task with status Downloaded, and
  every task created has attempts 0, no progress, a filename of the remote listing and the
  URL made of the base URL, a slash and the filename.
\<close>

theorem reconciliation_creates_tasks:
  "(\<forall>f \<in> set remoteFiles.
      \<exists>t \<in> set (main_tasks remoteFiles localFiles).
        filename t = f \<and> status t = (if f \<in> set localFiles then Downloaded else Pending)) \<and>
   (\<forall>t \<in> set (main_tasks remoteFiles localFiles).
      filename t \<in> set remoteFiles \<and>
      status t = (if filename t \<in> set localFiles then Downloaded else Pending) \<and>
      attempts t = 0 \<and> url t = baseUrl @ ''/'' @ filename t)"
proof (intro conjI ballI)
  fix f
  assume f: "f \<in> set remoteFiles"
  let ?t = "createTask f (if f \<in> set localFiles then Downloaded else Pending)"
  have "?t \<in> set (main_tasks remoteFiles localFiles)"
    using f by (auto simp: main_tasks_eq)
  moreover have "filename ?t = f \<and>
      status ?t = (if f \<in> set localFiles then Downloaded else Pending)"
    by (simp add: createTask_def)
  ultimately show "\<exists>t \<in> set (main_tasks remoteFiles localFiles).
      filename t = f \<and> status t = (if f \<in> set localFiles then Downloaded else Pending)"
    by blast
next
  fix t
  assume "t \<in> set (main_tasks remoteFiles localFiles)"
  then show "filename t \<in> set remoteFiles"
    and "status t = (if filename t \<in> set localFiles then Downloaded else Pending)"
    and "attempts t = 0"
    and "url t = baseUrl @ ''/'' @ filename t"
    by (auto simp: main_tasks_eq createTask_def)
qed

theorem reconciliation_creates_tasks_witness:
  "main_tasks [''a.gz'', ''b.gz''] [''b.gz''] =
     [\<lparr>filename = ''a.gz'', url = baseUrl @ ''/a.gz'', md5 = None, status = Pending,
       attempts = 0, progress = None\<rparr>,
      \<lparr>filename = ''b.gz'', url = baseUrl @ ''/b.gz'', md5 = None, status = Downloaded,
       attempts = 0, progress = None\<rparr>] \<and>
   (\<exists>t \<in> set (main_tasks [''a.gz'', ''b.gz''] [''b.gz'']).
      filename t = ''b.gz'' \<and> status t = Downloaded)"
proof -
  have m: "''b.gz'' \<in> set [''a.gz'', ''b.gz'']"
    by simp
  have "\<exists>t \<in> set (main_tasks [''a.gz'', ''b.gz''] [''b.gz'']).
      filename t = ''b.gz'' \<and>
      status t = (if ''b.gz'' \<in> set [''b.gz''] then Downloaded else Pending)"
    by (rule bspec [OF conjunct1 [OF reconciliation_creates_tasks] m])
  then have "\<exists>t \<in> set (main_tasks [''a.gz'', ''b.gz''] [''b.gz'']).
      filename t = ''b.gz'' \<and> status t = Downloaded"
    by simp
  moreover have "main_tasks [''a.gz'', ''b.gz''] [''b.gz''] =
     [\<lparr>filename = ''a.gz'', url = baseUrl @ ''/a.gz'', md5 = None, status = Pending,
       attempts = 0, progress = None\<rparr>,
      \<lparr>filename = ''b.gz'', url = baseUrl @ ''/b.gz'', md5 = None, status = Downloaded,
       attempts = 0, progress = None\<rparr>]"
    by (simp add: main_tasks_def createTask_def)
  ultimately show ?thesis
    by (rule_tac conjI)
qed

section \<open>The remote listing (download module)\<close>

text \<open>
  \<^verbatim>\<open>getRemoteFileList\<close> runs the global regular expression
  \<^verbatim>\<open>/href="(pubmed\d+n\d+\.xml\.gz)(?:\.md5)?"/g\<close> over the listing and adds the first group
  of every match to a \<^verbatim>\<open>Set\<close>. \<^verbatim>\<open>\d\<close> is an ASCII digit. A greedy \<^verbatim>\<open>\d+\<close> followed by
  a character that is not a digit matches the whole run of digits or nothing: a shorter run
  would have to be followed by a digit. The optional group is followed by the closing quote,
  so after \<^verbatim>\<open>.xml.gz\<close> the match ends with \<^verbatim>\<open>.md5"\<close> or with \<^verbatim>\<open>"\<close>. \<open>fileRegex s\<close> is the
  match that starts at the first character of \<open>s\<close>: the text of group 1 and the text after the
  match.
\<close>

definition isDigit :: "char \<Rightarrow> bool" where
  "isDigit c = (c \<in> set ''0123456789'')"

fun stripPrefix :: "string \<Rightarrow> string \<Rightarrow> string option" where
  "stripPrefix [] s = Some s"
| "stripPrefix (c # cs) [] = None"
| "stripPrefix (c # cs) (d # ds) = (if c = d then stripPrefix cs ds else None)"

definition digits1 :: "string \<Rightarrow> (string \<times> string) option" where
  "digits1 s = (if takeWhile isDigit s = [] then None
                else Some (takeWhile isDigit s, dropWhile isDigit s))"

definition fileRegex :: "string \<Rightarrow> (string \<times> string) option" where
  "fileRegex s =
     (case stripPrefix ''href=\"pubmed'' s of None \<Rightarrow> None | Some s1 \<Rightarrow>
      (case digits1 s1 of None \<Rightarrow> None | Some (d1, s2) \<Rightarrow>
       (case stripPrefix ''n'' s2 of None \<Rightarrow> None | Some s3 \<Rightarrow>
        (case digits1 s3 of None \<Rightarrow> None | Some (d2, s4) \<Rightarrow>
         (case stripPrefix ''.xml.gz'' s4 of None \<Rightarrow> None | Some s5 \<Rightarrow>
          let group1 = ''pubmed'' @ d1 @ ''n'' @ d2 @ ''.xml.gz'' in
          (case stripPrefix ''.md5\"'' s5 of Some rest \<Rightarrow> Some (group1, rest) | None \<Rightarrow>
           (case stripPrefix ''\"'' s5 of Some rest \<Rightarrow> Some (group1, rest)
            | None \<Rightarrow> None)))))))"

text \<open>\<^verbatim>\<open>Set.add\<close>: the set is the list of its elements in insertion order.\<close>

definition set_add :: "'a \<Rightarrow> 'a list \<Rightarrow> 'a list" where
  "set_add x xs = (if x \<in> set xs then xs else xs @ [x])"

text \<open>The filename pattern in words: pubmed, digits, n, digits, .xml.gz.\<close>

definition pubmedName :: "string \<Rightarrow> bool" where
  "pubmedName f \<longleftrightarrow>
     (\<exists>d1 d2. d1 \<noteq> [] \<and> d2 \<noteq> [] \<and> list_all isDigit d1 \<and> list_all isDigit d2 \<and>
        f = ''pubmed'' @ d1 @ ''n'' @ d2 @ ''.xml.gz'')"

lemma stripPrefix_Some: "stripPrefix p s = Some r \<longleftrightarrow> s = p @ r"
  by (induction p s rule: stripPrefix.induct) auto

lemma stripPrefix_append: "stripPrefix p (p @ r) = Some r"
  by (simp add: stripPrefix_Some)

lemma digits1_SomeD:
  "digits1 s = Some (d, r) \<Longrightarrow> s = d @ r \<and> d \<noteq> [] \<and> list_all isDigit d"
  by (auto simp: digits1_def list_all_iff split: if_splits dest: set_takeWhileD)

lemma digits1_append:
  "d \<noteq> [] \<Longrightarrow> list_all isDigit d \<Longrightarrow> (r = [] \<or> \<not> isDigit (hd r)) \<Longrightarrow>
   digits1 (d @ r) = Some (d, r)"
proof -
  assume d: "d \<noteq> []" "list_all isDigit d" and r: "r = [] \<or> \<not> isDigit (hd r)"
  from r have "takeWhile isDigit r = []"
    by (cases r) auto
  then have "takeWhile isDigit (d @ r) = d" "dropWhile isDigit (d @ r) = r"
    using d(2) by (simp_all add: list_all_iff takeWhile_eq_Nil_iff dropWhile_eq_self_iff)
  with d(1) show ?thesis
    by (simp add: digits1_def)
qed

lemma fileRegex_SomeD:
  assumes "fileRegex s = Some (n, r)"
  shows "pubmedName n \<and>
         (s = ''href=\"'' @ n @ ''.md5\"'' @ r \<or> s = ''href=\"'' @ n @ ''\"'' @ r)"
proof -
  from assms obtain s1 d1 s2 s3 d2 s4 s5 where
    a: "stripPrefix ''href=\"pubmed'' s = Some s1" "digits1 s1 = Some (d1, s2)"
       "stripPrefix ''n'' s2 = Some s3" "digits1 s3 = Some (d2, s4)"
       "stripPrefix ''.xml.gz'' s4 = Some s5"
    and n: "n = ''pubmed'' @ d1 @ ''n'' @ d2 @ ''.xml.gz''"
    and r: "stripPrefix ''.md5\"'' s5 = Some r \<or> stripPrefix ''\"'' s5 = Some r"
    unfolding fileRegex_def by (auto simp: Let_def split: option.splits prod.splits)
  from a have s: "s = ''href=\"pubmed'' @ d1 @ ''n'' @ d2 @ ''.xml.gz'' @ s5"
    by (auto simp only: stripPrefix_Some dest!: digits1_SomeD)
  have "pubmedName n"
    unfolding pubmedName_def n using a(2,4) by (blast dest: digits1_SomeD)
  moreover from r have "s5 = ''.md5\"'' @ r \<or> s5 = ''\"'' @ r"
    by (simp only: stripPrefix_Some)
  ultimately show ?thesis
    unfolding s n by auto
qed

lemma fileRegex_shorter: "fileRegex s = Some (n, r) \<Longrightarrow> length r < length s"
  by (drule fileRegex_SomeD) auto

text \<open>
  The loop \<^verbatim>\<open>while ((match = fileRegex.exec(text)) !== null)\<close>: \<^verbatim>\<open>exec\<close> finds the leftmost match
  at or after \<^verbatim>\<open>lastIndex\<close> and moves \<^verbatim>\<open>lastIndex\<close> behind it; \<open>s\<close> is the text from \<^verbatim>\<open>lastIndex\<close> on.
\<close>

function execAll :: "string \<Rightarrow> string list \<Rightarrow> string list" where
  "execAll s xmlFiles =
     (case fileRegex s of
        Some (group1, rest) \<Rightarrow> execAll rest (set_add group1 xmlFiles)
      | None \<Rightarrow> (case s of [] \<Rightarrow> xmlFiles | c # cs \<Rightarrow> execAll cs xmlFiles))"
  by pat_completeness auto
termination
  by (relation "measure (\<lambda>(s, a). length s)") (auto dest: fileRegex_shorter)


text \<open>
  \<^verbatim>\<open>getRemoteFileList\<close> on a response with the given \<^verbatim>\<open>ok\<close>, \<^verbatim>\<open>statusText\<close> and body; the
  thrown error is \<open>Inl\<close>.
\<close>

definition getRemoteFileList :: "bool \<Rightarrow> string \<Rightarrow> string \<Rightarrow> string + string list" where
  "getRemoteFileList ok statusText text =
     (if \<not> ok then Inl (''Failed to retrieve file list: '' @ statusText)
      else Inr (execAll text []))"

lemma set_add_distinct: "distinct xs \<Longrightarrow> distinct (set_add x xs)"
  by (simp add: set_add_def)

lemma set_set_add: "set (set_add x xs) = insert x (set xs)"
  by (auto simp: set_add_def)

declare execAll.simps [simp del]

lemma fileRegex_Nil: "fileRegex [] = None"
  by (simp add: fileRegex_def)

lemma execAll_Nil: "execAll [] acc = acc"
  by (subst execAll.simps) (simp add: fileRegex_Nil)

lemma execAll_match:
  "fileRegex s = Some (n, r) \<Longrightarrow> execAll s acc = execAll r (set_add n acc)"
  by (subst execAll.simps) simp

lemma execAll_skip:
  "fileRegex (c # cs) = None \<Longrightarrow> execAll (c # cs) acc = execAll cs acc"
  by (subst execAll.simps) simp

lemma execAll_invariant:
  assumes "P acc" and "\<And>n r s xs. fileRegex s = Some (n, r) \<Longrightarrow> P xs \<Longrightarrow> P (set_add n xs)"
  shows "P (execAll s acc)"
  using assms(1)
proof (induction s acc rule: execAll.induct)
  case (1 s xmlFiles)
  show ?case
  proof (cases "fileRegex s")
    case None
    show ?thesis
    proof (cases s)
      case Nil
      with 1 show ?thesis
        by (simp add: execAll_Nil)
    next
      case (Cons c cs)
      with 1 None show ?thesis
        by (simp add: execAll_skip)
    qed
  next
    case (Some a)
    obtain n r where a: "a = (n, r)"
      by (cases a)
    with Some 1 assms(2) show ?thesis
      by (simp add: execAll_match)
  qed
qed

lemma execAll_distinct: "distinct acc \<Longrightarrow> distinct (execAll s acc)"
  by (rule execAll_invariant) (simp_all add: set_add_distinct)

lemma execAll_names:
  assumes "\<forall>f \<in> set acc. pubmedName f"
  shows "\<forall>f \<in> set (execAll s acc). pubmedName f"
  using assms
  by (rule execAll_invariant) (auto simp: set_set_add dest: fileRegex_SomeD)

lemma pubmedName_not_md5: "pubmedName f \<Longrightarrow> \<not> suffix ''.md5'' f"
proof
  assume "pubmedName f" and "suffix ''.md5'' f"
  then obtain x y where "f = x @ ''.xml.gz''" and "f = y @ ''.md5''"
    unfolding pubmedName_def suffix_def by (metis append.assoc)
  then have "last f = CHR ''z''" and "last f = CHR ''5''"
    by simp_all
  then show False
    by simp
qed

lemma fileRegex_entry:
  assumes "pubmedName f"
  shows "fileRegex (''href=\"'' @ f @ ''\"'' @ rest) = Some (f, rest)"
    and "fileRegex (''href=\"'' @ f @ ''.md5\"'' @ rest) = Some (f, rest)"
proof -
  from assms obtain d1 d2 where d: "d1 \<noteq> []" "d2 \<noteq> []" "list_all isDigit d1"
      "list_all isDigit d2" and f: "f = ''pubmed'' @ d1 @ ''n'' @ d2 @ ''.xml.gz''"
    unfolding pubmedName_def by blast
  have p: "stripPrefix ''href=\"pubmed''
        (''href=\"'' @ (''pubmed'' @ d1 @ ''n'' @ d2 @ ''.xml.gz'') @ t) =
      Some (d1 @ ''n'' @ d2 @ ''.xml.gz'' @ t)" for t
    unfolding stripPrefix_Some by simp
  have d1: "digits1 (d1 @ ''n'' @ u) = Some (d1, ''n'' @ u)" for u
    using d by (intro digits1_append) (simp_all add: isDigit_def)
  have d2: "digits1 (d2 @ ''.xml.gz'' @ u) = Some (d2, ''.xml.gz'' @ u)" for u
    using d by (intro digits1_append) (simp_all add: isDigit_def)
  have n: "stripPrefix ''n'' (''n'' @ u) = Some u" for u
    by (rule stripPrefix_append)
  have x: "stripPrefix ''.xml.gz'' (''.xml.gz'' @ u) = Some u" for u
    by (rule stripPrefix_append)
  have m: "stripPrefix ''.md5\"'' (''.md5\"'' @ rest) = Some rest"
    by (rule stripPrefix_append)
  have q: "stripPrefix ''.md5\"'' (''\"'' @ rest) = None"
      "stripPrefix ''\"'' (''\"'' @ rest) = Some rest"
    by simp_all
  show "fileRegex (''href=\"'' @ f @ ''\"'' @ rest) = Some (f, rest)"
    unfolding f by (simp only: fileRegex_def p d1 d2 n x q option.case prod.case Let_def)
  show "fileRegex (''href=\"'' @ f @ ''.md5\"'' @ rest) = Some (f, rest)"
    unfolding f by (simp only: fileRegex_def p d1 d2 n x m option.case prod.case Let_def)
qed

lemma execAll_mono: "set acc \<subseteq> set (execAll s acc)"
proof (rule execAll_invariant [where P = "\<lambda>xs. set acc \<subseteq> set xs"])
  show "set acc \<subseteq> set acc"
    by simp
next
  fix n r s xs
  assume "set acc \<subseteq> set xs"
  then show "set acc \<subseteq> set (set_add n xs)"
    by (auto simp: set_set_add)
qed

lemma split_first: "q \<notin> set a \<Longrightarrow> q \<notin> set b \<Longrightarrow> a @ q # x = b @ q # y \<Longrightarrow> a = b \<and> x = y"
proof (induction a arbitrary: b)
  case Nil
  then show ?case
    by (cases b) auto
next
  case (Cons c a)
  then show ?case
    by (cases b) auto
qed

lemma split_first_append:
  assumes a: "q \<notin> set a" and b: "q \<notin> set b"
    and eq: "a @ q # x = pre @ b @ q # y"
  shows "(\<exists>p2. pre = a @ q # p2 \<and> x = p2 @ b @ q # y) \<or> (a = pre @ b \<and> x = y)"
proof (cases "q \<in> set pre")
  case True
  then obtain p1 p2 where p: "pre = p1 @ q # p2" "q \<notin> set p1"
    by (auto dest: split_list_first)
  from eq have "a @ q # x = p1 @ q # (p2 @ b @ q # y)"
    by (simp add: p)
  with a p(2) have "a = p1 \<and> x = p2 @ b @ q # y"
    by (rule split_first)
  with p(1) show ?thesis
    by simp
next
  case False
  with b have "q \<notin> set (pre @ b)"
    by simp
  moreover from eq have "a @ q # x = (pre @ b) @ q # y"
    by simp
  ultimately have "a = pre @ b \<and> x = y"
    using a by (intro split_first)
  then show ?thesis
    by simp
qed

lemma pubmedName_no_quote:
  assumes "pubmedName n"
  shows "CHR 0x22 \<notin> set n"
proof -
  from assms obtain d1 d2 where d: "list_all isDigit d1" "list_all isDigit d2"
    and n: "n = ''pubmed'' @ d1 @ ''n'' @ d2 @ ''.xml.gz''"
    unfolding pubmedName_def by blast
  have "CHR 0x22 \<notin> set d" if "list_all isDigit d" for d
    using that by (induction d) (auto simp: isDigit_def)
  with d show ?thesis
    unfolding n by simp
qed

lemma pubmedName_last:
  assumes "pubmedName n"
  shows "last n = CHR ''z''"
proof -
  from assms obtain d1 d2 where n: "n = ''pubmed'' @ d1 @ ''n'' @ d2 @ ''.xml.gz''"
    unfolding pubmedName_def by blast
  show ?thesis
    unfolding n by simp
qed

text \<open>
  A match that starts before a listing entry ends before that entry begins, and it is a match
  whatever follows it.
\<close>

lemma fileRegex_before_entry:
  assumes F: "CHR 0x22 \<notin> set F" and pre: "pre \<noteq> []"
    and m: "fileRegex (pre @ ''href=\"'' @ F @ CHR 0x22 # post) = Some (n, r)"
  shows "\<exists>M pre'. pre = M @ pre' \<and> M \<noteq> [] \<and> r = pre' @ ''href=\"'' @ F @ CHR 0x22 # post \<and>
    (\<forall>rest. fileRegex (M @ rest) = Some (n, rest))"
proof -
  let ?q = "CHR 0x22"
  let ?T = "pre @ ''href=\"'' @ F @ ?q # post"
  note d = fileRegex_SomeD [OF m]
  from d have n: "pubmedName n"
    by (rule conjunct1)
  from d have "?T = ''href=\"'' @ n @ ''.md5\"'' @ r \<or> ?T = ''href=\"'' @ n @ ''\"'' @ r"
    by (rule conjunct2)
  then obtain S where S: "S = ''.md5'' \<or> S = []"
    and eq: "?T = ''href='' @ ?q # (n @ S) @ ?q # r"
  proof (elim disjE)
    assume a: "?T = ''href=\"'' @ n @ ''.md5\"'' @ r"
    show thesis
    proof (rule that [of "''.md5''"])
      show "?T = ''href='' @ ?q # (n @ ''.md5'') @ ?q # r"
        unfolding a by simp
    qed simp
  next
    assume a: "?T = ''href=\"'' @ n @ ''\"'' @ r"
    show thesis
    proof (rule that [of "[]"])
      show "?T = ''href='' @ ?q # (n @ []) @ ?q # r"
        unfolding a by simp
    qed simp
  qed
  have h: "?q \<notin> set ''href=''"
    by simp
  have nS: "?q \<notin> set (n @ S)"
    using pubmedName_no_quote [OF n] S by auto
  have l: "last (n @ S) \<noteq> CHR ''=''"
    using pubmedName_last [OF n] S by auto
  from eq have "''href='' @ ?q # ((n @ S) @ ?q # r) = pre @ ''href='' @ ?q # (F @ ?q # post)"
    by simp
  from split_first_append [OF h h this]
  have "(\<exists>p2. pre = ''href='' @ ?q # p2 \<and>
          (n @ S) @ ?q # r = p2 @ ''href='' @ ?q # (F @ ?q # post)) \<or>
        ''href='' = pre @ ''href=''"
    by blast
  moreover have "''href='' \<noteq> pre @ ''href=''"
  proof
    assume "''href='' = pre @ ''href=''"
    then have "length ''href='' = length (pre @ ''href='')"
      by (rule arg_cong)
    with pre show False
      by simp
  qed
  ultimately obtain p2 where p2: "pre = ''href='' @ ?q # p2"
    and x: "(n @ S) @ ?q # r = p2 @ ''href='' @ ?q # (F @ ?q # post)"
    by blast
  from split_first_append [OF nS h x]
  have "(\<exists>p3. p2 = (n @ S) @ ?q # p3 \<and> r = p3 @ ''href='' @ ?q # (F @ ?q # post)) \<or>
      n @ S = p2 @ ''href=''"
    by blast
  moreover have "n @ S \<noteq> p2 @ ''href=''"
  proof
    assume "n @ S = p2 @ ''href=''"
    then have "last (n @ S) = last (p2 @ ''href='')"
      by (rule arg_cong)
    with l show False
      by simp
  qed
  ultimately obtain p3 where p3: "p2 = (n @ S) @ ?q # p3"
    and r: "r = p3 @ ''href='' @ ?q # (F @ ?q # post)"
    by blast
  let ?M = "''href='' @ ?q # (n @ S) @ [?q]"
  have "pre = ?M @ p3"
    unfolding p2 p3 by simp
  moreover have "?M \<noteq> []"
    by simp
  moreover have "r = p3 @ ''href=\"'' @ F @ ?q # post"
    unfolding r by simp
  moreover have "\<forall>rest. fileRegex (?M @ rest) = Some (n, rest)"
  proof
    fix rest
    from S show "fileRegex (?M @ rest) = Some (n, rest)"
    proof
      assume "S = ''.md5''"
      then show ?thesis
        using fileRegex_entry(2) [OF n, of rest] by simp
    next
      assume "S = []"
      then show ?thesis
        using fileRegex_entry(1) [OF n, of rest] by simp
    qed
  qed
  ultimately show ?thesis
    by blast
qed

text \<open>
  The scan reaches every listing entry: the name of the entry is in the result, whatever
  precedes and follows the entry.
\<close>

lemma execAll_entry:
  assumes F: "CHR 0x22 \<notin> set F"
    and e: "\<And>rest. fileRegex (''href=\"'' @ F @ CHR 0x22 # rest) = Some (f, rest)"
  shows "f \<in> set (execAll (pre @ ''href=\"'' @ F @ CHR 0x22 # post) acc)"
proof (induction "length pre" arbitrary: pre acc rule: less_induct)
  case less
  let ?E = "''href=\"'' @ F @ CHR 0x22 # post"
  show ?case
  proof (cases pre)
    case Nil
    have "execAll ?E acc = execAll post (set_add f acc)"
      by (rule execAll_match [OF e])
    moreover have "f \<in> set (set_add f acc)"
      by (simp add: set_set_add)
    ultimately show ?thesis
      using execAll_mono [of "set_add f acc" post] Nil by auto
  next
    case (Cons c cs)
    show ?thesis
    proof (cases "fileRegex (pre @ ?E)")
      case None
      then have "execAll (pre @ ?E) acc = execAll (cs @ ?E) acc"
        unfolding Cons append_Cons by (rule execAll_skip)
      moreover have "f \<in> set (execAll (cs @ ?E) acc)"
        by (rule less) (simp add: Cons)
      ultimately show ?thesis
        by simp
    next
      case (Some a)
      then obtain n r where m: "fileRegex (pre @ ?E) = Some (n, r)"
        by (cases a) auto
      from Cons have "pre \<noteq> []"
        by simp
      from fileRegex_before_entry [OF F this m]
      obtain M pre' where r: "r = pre' @ ?E" and s: "pre = M @ pre'" "M \<noteq> []"
        by blast
      have "execAll (pre @ ?E) acc = execAll r (set_add n acc)"
        by (rule execAll_match [OF m])
      moreover have "f \<in> set (execAll (pre' @ ?E) (set_add n acc))"
        by (rule less) (simp add: s)
      ultimately show ?thesis
        by (simp add: r)
    qed
  qed
qed

text \<open>
  Two entries with the same name are interchangeable: the scan returns the same list for
  both, whatever precedes and follows them.
\<close>

lemma execAll_entry_eq:
  assumes F1: "CHR 0x22 \<notin> set F1" and F2: "CHR 0x22 \<notin> set F2"
    and e1: "\<And>rest. fileRegex (''href=\"'' @ F1 @ CHR 0x22 # rest) = Some (f, rest)"
    and e2: "\<And>rest. fileRegex (''href=\"'' @ F2 @ CHR 0x22 # rest) = Some (f, rest)"
  shows "execAll (pre @ ''href=\"'' @ F1 @ CHR 0x22 # post) acc =
    execAll (pre @ ''href=\"'' @ F2 @ CHR 0x22 # post) acc"
proof (induction "length pre" arbitrary: pre acc rule: less_induct)
  case less
  let ?E1 = "''href=\"'' @ F1 @ CHR 0x22 # post"
  let ?E2 = "''href=\"'' @ F2 @ CHR 0x22 # post"
  show ?case
  proof (cases pre)
    case Nil
    have "execAll ?E1 acc = execAll post (set_add f acc)"
      by (rule execAll_match [OF e1])
    moreover have "execAll ?E2 acc = execAll post (set_add f acc)"
      by (rule execAll_match [OF e2])
    ultimately show ?thesis
      using Nil by simp
  next
    case (Cons c cs)
    then have pre: "pre \<noteq> []"
      by simp
    have step: "execAll (pre @ ?E1) acc = execAll (pre @ ?E2) acc"
      if m: "fileRegex (pre @ ?E1) = Some (n, r) \<or> fileRegex (pre @ ?E2) = Some (n, r)" for n r
    proof -
      from m have "\<exists>M pre'. pre = M @ pre' \<and> M \<noteq> [] \<and>
          (\<forall>rest. fileRegex (M @ rest) = Some (n, rest))"
      proof
        assume "fileRegex (pre @ ?E1) = Some (n, r)"
        from fileRegex_before_entry [OF F1 pre this] show ?thesis
          by (elim exE conjE) (intro exI conjI)
      next
        assume "fileRegex (pre @ ?E2) = Some (n, r)"
        from fileRegex_before_entry [OF F2 pre this] show ?thesis
          by (elim exE conjE) (intro exI conjI)
      qed
      then obtain M pre' where s: "pre = M @ pre'" "M \<noteq> []"
        and all: "\<forall>rest. fileRegex (M @ rest) = Some (n, rest)"
        by (elim exE conjE)
      have "fileRegex (pre @ ?E1) = Some (n, pre' @ ?E1)"
        using all [rule_format, of "pre' @ ?E1"] by (simp add: s)
      then have "execAll (pre @ ?E1) acc = execAll (pre' @ ?E1) (set_add n acc)"
        by (rule execAll_match)
      moreover have "fileRegex (pre @ ?E2) = Some (n, pre' @ ?E2)"
        using all [rule_format, of "pre' @ ?E2"] by (simp add: s)
      then have "execAll (pre @ ?E2) acc = execAll (pre' @ ?E2) (set_add n acc)"
        by (rule execAll_match)
      moreover have "execAll (pre' @ ?E1) (set_add n acc) = execAll (pre' @ ?E2) (set_add n acc)"
        by (rule less) (simp add: s)
      ultimately show ?thesis
        by simp
    qed
    show ?thesis
    proof (cases "fileRegex (pre @ ?E1) = None \<and> fileRegex (pre @ ?E2) = None")
      case True
      then have "execAll (pre @ ?E1) acc = execAll (cs @ ?E1) acc"
        and "execAll (pre @ ?E2) acc = execAll (cs @ ?E2) acc"
        unfolding Cons append_Cons by (simp_all only: execAll_skip)
      moreover have "execAll (cs @ ?E1) acc = execAll (cs @ ?E2) acc"
        by (rule less) (simp add: Cons)
      ultimately show ?thesis
        by simp
    next
      case False
      then obtain n r where
        "fileRegex (pre @ ?E1) = Some (n, r) \<or> fileRegex (pre @ ?E2) = Some (n, r)"
        by auto
      then show ?thesis
        by (rule step)
    qed
  qed
qed

lemma execAll_sidecar:
  assumes f: "pubmedName f"
  shows "f \<in> set (execAll (pre @ ''href=\"'' @ f @ ''.md5\"'' @ post) acc)"
    and "f \<in> set (execAll (pre @ ''href=\"'' @ f @ ''\"'' @ post) acc)"
    and "execAll (pre @ ''href=\"'' @ f @ ''.md5\"'' @ post) acc =
      execAll (pre @ ''href=\"'' @ f @ ''\"'' @ post) acc"
proof -
  have a: "CHR 0x22 \<notin> set (f @ ''.md5'')" "CHR 0x22 \<notin> set f"
    using pubmedName_no_quote [OF f] by simp_all
  have "fileRegex (''href=\"'' @ (f @ ''.md5'') @ CHR 0x22 # rest) = Some (f, rest)" for rest
    using fileRegex_entry(2) [OF f, of rest] by simp
  from execAll_entry [OF a(1) this, of pre post acc]
  show "f \<in> set (execAll (pre @ ''href=\"'' @ f @ ''.md5\"'' @ post) acc)"
    by simp
  have "fileRegex (''href=\"'' @ f @ CHR 0x22 # rest) = Some (f, rest)" for rest
    using fileRegex_entry(1) [OF f, of rest] by simp
  from execAll_entry [OF a(2) this, of pre post acc]
  show "f \<in> set (execAll (pre @ ''href=\"'' @ f @ ''\"'' @ post) acc)"
    by simp
  have "execAll (pre @ ''href=\"'' @ (f @ ''.md5'') @ CHR 0x22 # post) acc =
      execAll (pre @ ''href=\"'' @ f @ CHR 0x22 # post) acc"
  proof (rule execAll_entry_eq [OF a])
    show "fileRegex (''href=\"'' @ (f @ ''.md5'') @ CHR 0x22 # rest) = Some (f, rest)" for rest
      using fileRegex_entry(2) [OF f, of rest] by simp
    show "fileRegex (''href=\"'' @ f @ CHR 0x22 # rest) = Some (f, rest)" for rest
      using fileRegex_entry(1) [OF f, of rest] by simp
  qed
  then show "execAll (pre @ ''href=\"'' @ f @ ''.md5\"'' @ post) acc =
      execAll (pre @ ''href=\"'' @ f @ ''\"'' @ post) acc"
    by simp
qed


text \<open>
  Claim C10. The extracted listing has no duplicates, every element has the form pubmed,
  digits, n, digits, .xml.gz and none ends in .md5, so the tasks made from it have pairwise
  different filenames. A listing entry for the .md5 sidecar of a file contributes the base
  filename only: alone and next to the entry of the file itself the result is that one name,
  and wherever the sidecar entry stands in a listing, whatever precedes and follows it, the
  base filename is in the result, the sidecar name is not, and the result is the one the
  listing gives with the entry of the file itself in that place.
\<close>

theorem remote_listing_names:
  "(\<forall>fs. getRemoteFileList ok statusText text = Inr fs \<longrightarrow>
      distinct fs \<and> (\<forall>f \<in> set fs. pubmedName f \<and> \<not> suffix ''.md5'' f) \<and>
      distinct (map filename (main_tasks fs localFiles))) \<and>
   (pubmedName f \<longrightarrow>
      getRemoteFileList True statusText (''href=\"'' @ f @ ''.md5\"'') = Inr [f] \<and>
      getRemoteFileList True statusText
        (''href=\"'' @ f @ ''\"'' @ ''href=\"'' @ f @ ''.md5\"'') = Inr [f] \<and>
      (\<forall>pre post. \<exists>fs.
         getRemoteFileList True statusText (pre @ ''href=\"'' @ f @ ''.md5\"'' @ post) = Inr fs \<and>
         f \<in> set fs \<and> f @ ''.md5'' \<notin> set fs \<and>
         getRemoteFileList True statusText (pre @ ''href=\"'' @ f @ ''\"'' @ post) = Inr fs))"
proof (intro conjI allI impI)
  fix fs
  assume "getRemoteFileList ok statusText text = Inr fs"
  then have fs: "fs = execAll text []"
    by (simp add: getRemoteFileList_def split: if_splits)
  show "distinct fs"
    unfolding fs by (rule execAll_distinct) simp
  then show "distinct (map filename (main_tasks fs localFiles))"
    by (rule main_tasks_distinct)
  have "\<forall>f \<in> set fs. pubmedName f"
    unfolding fs by (rule execAll_names) simp
  then show "\<forall>f \<in> set fs. pubmedName f \<and> \<not> suffix ''.md5'' f"
    by (blast dest: pubmedName_not_md5)
next
  assume f: "pubmedName f"
  have a: "set_add f [] = [f]" "set_add f [f] = [f]"
    by (simp_all add: set_add_def)
  have m: "execAll (''href=\"'' @ f @ ''.md5\"'') acc = set_add f acc" for acc
    using execAll_match [OF fileRegex_entry(2) [OF f, of "[]"], of acc]
    by (simp only: append_Nil2 execAll_Nil)
  show "getRemoteFileList True statusText (''href=\"'' @ f @ ''.md5\"'') = Inr [f]"
    by (simp only: getRemoteFileList_def m a not_True_eq_False if_False)
  have "execAll (''href=\"'' @ f @ ''\"'' @ ''href=\"'' @ f @ ''.md5\"'') [] =
      execAll (''href=\"'' @ f @ ''.md5\"'') (set_add f [])"
    by (rule execAll_match [OF fileRegex_entry(1) [OF f]])
  then show "getRemoteFileList True statusText
      (''href=\"'' @ f @ ''\"'' @ ''href=\"'' @ f @ ''.md5\"'') = Inr [f]"
    by (simp only: getRemoteFileList_def m a not_True_eq_False if_False)
  fix pre post
  let ?sidecar = "pre @ ''href=\"'' @ f @ ''.md5\"'' @ post"
  let ?plain = "pre @ ''href=\"'' @ f @ ''\"'' @ post"
  have g: "getRemoteFileList True statusText s = Inr (execAll s [])" for s
    by (simp only: getRemoteFileList_def not_True_eq_False if_False)
  have "\<forall>n \<in> set (execAll ?sidecar []). pubmedName n"
    by (rule execAll_names) simp
  then have "f @ ''.md5'' \<in> set (execAll ?sidecar []) \<Longrightarrow> pubmedName (f @ ''.md5'')"
    by (rule bspec)
  moreover have "\<not> pubmedName (f @ ''.md5'')"
    using pubmedName_not_md5 [of "f @ ''.md5''"] by (auto simp: suffix_def)
  ultimately have "f @ ''.md5'' \<notin> set (execAll ?sidecar [])"
    by (intro notI) (elim notE)
  moreover note execAll_sidecar(1) [OF f, of pre post "[]"]
  moreover have "getRemoteFileList True statusText ?plain = Inr (execAll ?sidecar [])"
    unfolding g by (simp only: execAll_sidecar(3) [OF f])
  ultimately show "\<exists>fs. getRemoteFileList True statusText ?sidecar = Inr fs \<and>
      f \<in> set fs \<and> f @ ''.md5'' \<notin> set fs \<and>
      getRemoteFileList True statusText ?plain = Inr fs"
    using g [of ?sidecar] by (intro exI [of _ "execAll ?sidecar []"] conjI)
qed

theorem remote_listing_names_witness:
  "getRemoteFileList True ''OK''
     ''<a href=\"pubmed25n0001.xml.gz\">x</a> <a href=\"pubmed25n0001.xml.gz.md5\">y</a>'' =
     Inr [''pubmed25n0001.xml.gz''] \<and>
   pubmedName ''pubmed25n0001.xml.gz'' \<and>
   getRemoteFileList True ''OK'' ''href=\"pubmed25n0001.xml.gz.md5\"'' =
     Inr [''pubmed25n0001.xml.gz''] \<and>
   pubmedName ''pubmed25n0002.xml.gz'' \<and>
   getRemoteFileList True ''OK''
     ''<a href=\"pubmed25n0001.xml.gz\">x</a> <a href=\"pubmed25n0002.xml.gz.md5\">y</a>'' =
     Inr [''pubmed25n0001.xml.gz'', ''pubmed25n0002.xml.gz''] \<and>
   getRemoteFileList True ''OK''
     ''<a href=\"pubmed25n0001.xml.gz\">x</a> <a href=\"pubmed25n0002.xml.gz\">y</a>'' =
     Inr [''pubmed25n0001.xml.gz'', ''pubmed25n0002.xml.gz'']"
proof -
  let ?text = "''<a href=\"pubmed25n0001.xml.gz\">x</a> <a href=\"pubmed25n0001.xml.gz.md5\">y</a>''"
  let ?f = "''pubmed25n0001.xml.gz''"
  note inst = remote_listing_names [of True "''OK''" ?text "[]" ?f]
  have e: "getRemoteFileList True ''OK'' ?text = Inr [?f]"
    by code_simp
  with inst have "\<forall>f \<in> set [?f]. pubmedName f \<and> \<not> suffix ''.md5'' f"
    by blast
  then have p: "pubmedName ?f"
    by simp
  from inst [THEN conjunct2, rule_format, OF p, THEN conjunct1]
  have s: "getRemoteFileList True ''OK'' (''href=\"'' @ ?f @ ''.md5\"'') = Inr [?f]" .
  let ?text2 = "''<a href=\"pubmed25n0001.xml.gz\">x</a> <a href=\"pubmed25n0002.xml.gz.md5\">y</a>''"
  let ?g = "''pubmed25n0002.xml.gz''"
  let ?pre = "''<a href=\"pubmed25n0001.xml.gz\">x</a> <a ''"
  let ?post = "''>y</a>''"
  note inst2 = remote_listing_names [of True "''OK''" ?text2 "[]" ?g]
  have e2: "getRemoteFileList True ''OK'' ?text2 = Inr [?f, ?g]"
    by code_simp
  from inst2 [THEN conjunct1, rule_format, OF e2, THEN conjunct2, THEN conjunct1]
  have "\<forall>f \<in> set [?f, ?g]. pubmedName f \<and> \<not> suffix ''.md5'' f" .
  then have p2: "pubmedName ?g"
    by simp
  from inst2 [THEN conjunct2, rule_format, OF p2, THEN conjunct2, THEN conjunct2,
    rule_format, of ?pre ?post]
  obtain fs where
    a: "getRemoteFileList True ''OK'' (?pre @ ''href=\"'' @ ?g @ ''.md5\"'' @ ?post) = Inr fs"
    and b: "getRemoteFileList True ''OK'' (?pre @ ''href=\"'' @ ?g @ ''\"'' @ ?post) = Inr fs"
    by (elim exE conjE)
  from a e2 have fs: "fs = [?f, ?g]"
    by simp
  from b have e3: "getRemoteFileList True ''OK''
      ''<a href=\"pubmed25n0001.xml.gz\">x</a> <a href=\"pubmed25n0002.xml.gz\">y</a>'' =
      Inr [?f, ?g]"
    unfolding fs by simp
  from e p s p2 e2 e3 show ?thesis
    by simp
qed

section \<open>The downloader (downloader module)\<close>

text \<open>
  The class \<^verbatim>\<open>Downloader\<close> runs on the JavaScript event loop: one computation runs at a time,
  up to its next \<^verbatim>\<open>await\<close>, and a suspended computation resumes when what it awaits settles.
  The model is a state and one event for every resumption.

  \<^item> Task objects are shared by reference between \<^verbatim>\<open>tasks\<close> and the two queues. The store is the
    list \<open>tasks\<close>; a queue holds indices into it. The elements of the array are different
    objects, as \<^verbatim>\<open>main\<close> builds them.
  \<^item> Every call of the \<^verbatim>\<open>async\<close> arrow function in \<^verbatim>\<open>processDownloads\<close> or
    \<^verbatim>\<open>processVerifications\<close> is a job; the promise it returns is its index in \<open>jobs\<close>. The phase of
    a job is the \<^verbatim>\<open>await\<close> it is suspended at.
  \<^item> \<^verbatim>\<open>activeDownloads\<close> and \<^verbatim>\<open>activeVerifications\<close> are \<^verbatim>\<open>Map\<close>s from a filename to a promise: lists of
    pairs in insertion order, \<^verbatim>\<open>set\<close> is \<^const>\<open>AList.update\<close>, \<^verbatim>\<open>delete\<close> is \<^const>\<open>AList.delete\<close>,
    \<^verbatim>\<open>size\<close> is the length.
  \<^item> The two loops and \<^verbatim>\<open>start\<close> are suspended at \<^verbatim>\<open>Promise.race\<close>, at the 100 ms timer or at
    \<^verbatim>\<open>Promise.all\<close>; \<open>Racing ps\<close> keeps the promises handed to \<^verbatim>\<open>Promise.race\<close>. A loop is \<open>Idle\<close>
    before \<^verbatim>\<open>start\<close> calls it and \<open>Returned\<close> after its \<^verbatim>\<open>while\<close> loop has ended.
  \<^item> A step is atomic: it runs from one \<^verbatim>\<open>await\<close> to the next one that can change the state. The
    \<^verbatim>\<open>await\<close> in the \<^verbatim>\<open>finally\<close> block of \<^verbatim>\<open>downloadFile\<close> (the file stream finishes) changes
    nothing and belongs to the step that ends the download.
  \<^item> \<^verbatim>\<open>ProgressUI\<close>, \<^verbatim>\<open>activeTasks\<close>, \<^verbatim>\<open>updateUI\<close> and \<^verbatim>\<open>debug\<close> only print; they are left out. The
    persistence callback \<^verbatim>\<open>onProgress\<close> is awaited and resolves (event \<open>SaveSettled\<close>); a run in
    which it rejects is aborted and is not modelled.
\<close>

datatype kind = Download | Verification

text \<open>
  The phases of a job: \<^verbatim>\<open>downloadFile\<close> awaits \<^verbatim>\<open>fetch\<close> or \<^verbatim>\<open>reader.read()\<close>; a verification
  awaits \<^verbatim>\<open>computeFileHash\<close> or \<^verbatim>\<open>getMd5\<close> (and then holds \<^verbatim>\<open>localHash\<close>, \<open>None\<close> for \<^verbatim>\<open>null\<close>); the
  job awaits \<^verbatim>\<open>onProgress\<close>; its promise has settled.
\<close>

datatype phase =
    AwaitFetch
  | AwaitRead
  | AwaitHash
  | AwaitMd5 "string option"
  | AwaitSave
  | Settled

record job =
  job_task :: nat
  job_kind :: kind
  job_phase :: phase

datatype loop = Idle | Racing "nat list" | Sleeping | Returned

datatype driver = NotStarted | FirstPass | SecondPass | Finished

record Downloader =
  tasks :: "DownloadTask list"
  downloadQueue :: "nat list"
  verifyQueue :: "nat list"
  activeDownloads :: "(string \<times> nat) list"
  activeVerifications :: "(string \<times> nat) list"
  jobs :: "job list"
  downloads_loop :: loop
  verifications_loop :: loop
  start_state :: driver

text \<open>The constructor: the two queues are the pending and the downloaded tasks, in order.\<close>

definition new_Downloader :: "DownloadTask list \<Rightarrow> Downloader" where
  "new_Downloader ts =
     \<lparr>tasks = ts,
      downloadQueue = filter (\<lambda>i. status (ts ! i) = Pending) [0..<length ts],
      verifyQueue = filter (\<lambda>i. status (ts ! i) = Downloaded) [0..<length ts],
      activeDownloads = [], activeVerifications = [], jobs = [],
      downloads_loop = Idle, verifications_loop = Idle, start_state = NotStarted\<rparr>"

definition update_task :: "nat \<Rightarrow> (DownloadTask \<Rightarrow> DownloadTask) \<Rightarrow> Downloader \<Rightarrow> Downloader" where
  "update_task i f s = s\<lparr>tasks := (tasks s)[i := f (tasks s ! i)]\<rparr>"

definition set_phase :: "nat \<Rightarrow> phase \<Rightarrow> Downloader \<Rightarrow> Downloader" where
  "set_phase p ph s = s\<lparr>jobs := (jobs s)[p := (jobs s ! p)\<lparr>job_phase := ph\<rparr>]\<rparr>"

definition task_of :: "Downloader \<Rightarrow> nat \<Rightarrow> nat" where
  "task_of s p = job_task (jobs s ! p)"

subsection \<open>processDownloads\<close>

text \<open>
  One turn of the inner loop of \<^verbatim>\<open>processDownloads\<close>: \<^verbatim>\<open>shift\<close> the queue, run the job up to its
  first \<^verbatim>\<open>await\<close> (the status becomes \<^verbatim>\<open>'downloading'\<close>, \<^verbatim>\<open>downloadFile\<close> awaits \<^verbatim>\<open>fetch\<close>),
  and store the promise under the filename.
\<close>

definition startDownload :: "Downloader \<Rightarrow> Downloader" where
  "startDownload s =
     (case downloadQueue s of
        [] \<Rightarrow> s
      | i # q \<Rightarrow>
          let p = length (jobs s);
              s1 = s\<lparr>downloadQueue := q\<rparr>;
              s2 = update_task i (\<lambda>t. t\<lparr>status := Downloading\<rparr>) s1;
              s3 = s2\<lparr>jobs := jobs s2 @
                     [\<lparr>job_task = i, job_kind = Download, job_phase = AwaitFetch\<rparr>]\<rparr>
          in s3\<lparr>activeDownloads :=
                  AList.update (filename (tasks s3 ! i)) p (activeDownloads s3)\<rparr>)"

lemma startDownload_queue:
  "downloadQueue s \<noteq> [] \<Longrightarrow> length (downloadQueue (startDownload s)) < length (downloadQueue s)"
  by (auto simp: startDownload_def update_task_def Let_def split: list.splits)

text \<open>The inner \<^verbatim>\<open>while\<close> loop of \<^verbatim>\<open>processDownloads\<close>.\<close>

function fillDownloads :: "Downloader \<Rightarrow> Downloader" where
  "fillDownloads s =
     (if length (downloadQueue s) > 0 \<and> length (activeDownloads s) < CONCURRENT_DOWNLOADS
      then fillDownloads (startDownload s) else s)"
  by pat_completeness auto
termination
  by (relation "measure (\<lambda>s. length (downloadQueue s))") (auto intro: startDownload_queue)

declare fillDownloads.simps [simp del]

lemma startDownload_active:
  "downloadQueue s \<noteq> [] \<or> activeDownloads s \<noteq> [] \<Longrightarrow> activeDownloads (startDownload s) \<noteq> []"
  by (auto simp: startDownload_def update_task_def Let_def split: list.splits)

lemma fillDownloads_active:
  "downloadQueue s \<noteq> [] \<or> activeDownloads s \<noteq> [] \<Longrightarrow> activeDownloads (fillDownloads s) \<noteq> []"
proof (induction s rule: fillDownloads.induct)
  case (1 s)
  show ?case
  proof (cases "length (downloadQueue s) > 0 \<and> length (activeDownloads s) < CONCURRENT_DOWNLOADS")
    case True
    then have "activeDownloads (startDownload s) \<noteq> []"
      by (intro startDownload_active) auto
    with 1 True show ?thesis
      by (subst fillDownloads.simps) simp
  next
    case False
    with 1(2) have "activeDownloads s \<noteq> []"
      by (auto simp: CONCURRENT_DOWNLOADS_def)
    with False show ?thesis
      by (subst fillDownloads.simps) auto
  qed
qed

text \<open>
  \<^verbatim>\<open>processDownloads\<close> from the test of its outer loop up to the next \<^verbatim>\<open>await Promise.race\<close> or
  to its return. The recursive call is the outer loop going round without awaiting; the
  termination proof shows that it never happens.
\<close>

function processDownloads :: "Downloader \<Rightarrow> Downloader" where
  "processDownloads s =
     (if length (downloadQueue s) > 0 \<or> length (activeDownloads s) > 0 then
        (let s' = fillDownloads s in
         if length (activeDownloads s') > 0
         then s'\<lparr>downloads_loop := Racing (map snd (activeDownloads s'))\<rparr>
         else processDownloads s')
      else s\<lparr>downloads_loop := Returned\<rparr>)"
  by pat_completeness auto
termination
proof (relation "{}")
  show "wf {}"
    by simp
next
  fix s x
  assume "0 < length (downloadQueue s) \<or> 0 < length (activeDownloads s)"
    and "x = fillDownloads s" and "\<not> 0 < length (activeDownloads x)"
  then show "(x, s) \<in> {}"
    using fillDownloads_active [of s] by auto
qed


declare processDownloads.simps [simp del]

text \<open>
  The rest of a download job. \<open>downloadSucceeded\<close> is the end of the \<^verbatim>\<open>try\<close> block,
  \<open>downloadFailed\<close> the \<^verbatim>\<open>catch\<close> block; both then await \<^verbatim>\<open>onProgress\<close>.
\<close>

definition downloadSucceeded :: "nat \<Rightarrow> Downloader \<Rightarrow> Downloader" where
  "downloadSucceeded p s =
     (let i = task_of s p;
          s1 = update_task i (\<lambda>t. t\<lparr>status := Downloaded\<rparr>) s;
          s2 = s1\<lparr>verifyQueue := verifyQueue s1 @ [i]\<rparr>
      in set_phase p AwaitSave s2)"

definition downloadFailed :: "nat \<Rightarrow> Downloader \<Rightarrow> Downloader" where
  "downloadFailed p s =
     (let i = task_of s p;
          s1 = update_task i (\<lambda>t. t\<lparr>attempts := attempts t + 1\<rparr>) s;
          s2 = (if attempts (tasks s1 ! i) < MAX_RETRIES
                then s1\<lparr>downloadQueue := downloadQueue s1 @ [i]\<rparr>
                else update_task i (\<lambda>t. t\<lparr>status := Failed\<rparr>) s1)
      in set_phase p AwaitSave s2)"

text \<open>
  \<^verbatim>\<open>downloadFile\<close> (storage module). \<^verbatim>\<open>fetch\<close> rejects, or gives a response with \<^verbatim>\<open>ok\<close>, with or
  without a body, and with the number \<^verbatim>\<open>Number(content-length) || 0\<close>. A chunk adds its length
  to \<^verbatim>\<open>task.progress.bytes\<close>, which throws a \<^verbatim>\<open>TypeError\<close> when \<^verbatim>\<open>task.progress\<close> is undefined.
\<close>

datatype fetch_result = Rejected | Response bool bool int

definition fetchSettled :: "nat \<Rightarrow> fetch_result \<Rightarrow> Downloader \<Rightarrow> Downloader" where
  "fetchSettled p r s =
     (case r of
        Rejected \<Rightarrow> downloadFailed p s
      | Response ok body tot \<Rightarrow>
          if \<not> ok \<or> \<not> body then downloadFailed p s
          else set_phase p AwaitRead
                 (update_task (task_of s p) (\<lambda>t. t\<lparr>progress := Some (0, tot)\<rparr>) s))"

definition readChunk :: "nat \<Rightarrow> nat \<Rightarrow> Downloader \<Rightarrow> Downloader" where
  "readChunk p n s =
     (case progress (tasks s ! task_of s p) of
        None \<Rightarrow> downloadFailed p s
      | Some (b, tot) \<Rightarrow>
          update_task (task_of s p) (\<lambda>t. t\<lparr>progress := Some (b + int n, tot)\<rparr>) s)"

subsection \<open>processVerifications\<close>

text \<open>
  One turn of the inner loop of \<^verbatim>\<open>processVerifications\<close>, up to \<^verbatim>\<open>await computeFileHash\<close>.
\<close>

definition startVerification :: "Downloader \<Rightarrow> Downloader" where
  "startVerification s =
     (case verifyQueue s of
        [] \<Rightarrow> s
      | i # q \<Rightarrow>
          let p = length (jobs s);
              s1 = s\<lparr>verifyQueue := q\<rparr>;
              s2 = update_task i (\<lambda>t. t\<lparr>status := Downloading\<rparr>) s1;
              s3 = update_task i (\<lambda>t. t\<lparr>progress := Some (0, 100)\<rparr>) s2;
              s4 = s3\<lparr>jobs := jobs s3 @
                     [\<lparr>job_task = i, job_kind = Verification, job_phase = AwaitHash\<rparr>]\<rparr>
          in s4\<lparr>activeVerifications :=
                  AList.update (filename (tasks s4 ! i)) p (activeVerifications s4)\<rparr>)"

lemma startVerification_queue:
  "verifyQueue s \<noteq> [] \<Longrightarrow> length (verifyQueue (startVerification s)) < length (verifyQueue s)"
  by (auto simp: startVerification_def update_task_def Let_def split: list.splits)

function fillVerifications :: "Downloader \<Rightarrow> Downloader" where
  "fillVerifications s =
     (if length (verifyQueue s) > 0 \<and>
         length (activeVerifications s) < CONCURRENT_VERIFICATIONS
      then fillVerifications (startVerification s) else s)"
  by pat_completeness auto
termination
  by (relation "measure (\<lambda>s. length (verifyQueue s))") (auto intro: startVerification_queue)

declare fillVerifications.simps [simp del]

lemma startVerification_active:
  "verifyQueue s \<noteq> [] \<or> activeVerifications s \<noteq> [] \<Longrightarrow>
   activeVerifications (startVerification s) \<noteq> []"
  by (auto simp: startVerification_def update_task_def Let_def split: list.splits)

lemma fillVerifications_active:
  "verifyQueue s \<noteq> [] \<or> activeVerifications s \<noteq> [] \<Longrightarrow>
   activeVerifications (fillVerifications s) \<noteq> []"
proof (induction s rule: fillVerifications.induct)
  case (1 s)
  show ?case
  proof (cases "length (verifyQueue s) > 0 \<and>
      length (activeVerifications s) < CONCURRENT_VERIFICATIONS")
    case True
    then have "activeVerifications (startVerification s) \<noteq> []"
      by (intro startVerification_active) auto
    with 1 True show ?thesis
      by (subst fillVerifications.simps) simp
  next
    case False
    with 1(2) have "activeVerifications s \<noteq> []"
      by (auto simp: CONCURRENT_VERIFICATIONS_def)
    with False show ?thesis
      by (subst fillVerifications.simps) auto
  qed
qed

function processVerifications :: "Downloader \<Rightarrow> Downloader" where
  "processVerifications s =
     (if length (verifyQueue s) > 0 \<or> length (activeVerifications s) > 0 \<or>
         length (downloadQueue s) > 0 \<or> length (activeDownloads s) > 0 then
        (if length (verifyQueue s) = 0 \<and>
            length (activeVerifications s) < CONCURRENT_VERIFICATIONS \<and>
            (length (downloadQueue s) > 0 \<or> length (activeDownloads s) > 0)
         then s\<lparr>verifications_loop := Sleeping\<rparr>
         else
           (let s' = fillVerifications s in
            if length (activeVerifications s') > 0
            then s'\<lparr>verifications_loop := Racing (map snd (activeVerifications s'))\<rparr>
            else processVerifications s'))
      else s\<lparr>verifications_loop := Returned\<rparr>)"
  by pat_completeness auto
termination
proof (relation "{}")
  show "wf {}"
    by simp
next
  fix s x
  assume c: "0 < length (verifyQueue s) \<or> 0 < length (activeVerifications s) \<or>
      0 < length (downloadQueue s) \<or> 0 < length (activeDownloads s)"
    and i: "\<not> (length (verifyQueue s) = 0 \<and>
      length (activeVerifications s) < CONCURRENT_VERIFICATIONS \<and>
      (0 < length (downloadQueue s) \<or> 0 < length (activeDownloads s)))"
    and x: "x = fillVerifications s" "\<not> 0 < length (activeVerifications x)"
  from c i have "verifyQueue s \<noteq> [] \<or> activeVerifications s \<noteq> []"
    by (auto simp: CONCURRENT_VERIFICATIONS_def)
  then show "(x, s) \<in> {}"
    using fillVerifications_active [of s] x by auto
qed

declare processVerifications.simps [simp del]

text \<open>
  The rest of a verification job. The outcome of \<^verbatim>\<open>computeFileHash\<close> and of \<^verbatim>\<open>getMd5\<close> is the
  string, or \<open>None\<close> when the call throws and its \<^verbatim>\<open>catch\<close> handler returns \<^verbatim>\<open>null\<close>. The local
  counter \<^verbatim>\<open>verified\<close> of \<^verbatim>\<open>processVerifications\<close> is never read and is left out.
  \<^verbatim>\<open>!localHash\<close> holds for \<^verbatim>\<open>null\<close> and for the empty string.
  \<open>verified\<close> and \<open>hashMismatch\<close> are the two branches of the comparison, \<open>verifyError\<close> the
  \<^verbatim>\<open>catch\<close> block and \<open>verifyFinally\<close> the \<^verbatim>\<open>finally\<close> block followed by \<^verbatim>\<open>await onProgress\<close>.
\<close>

text \<open>
  \<^verbatim>\<open>getMd5\<close>: \<^verbatim>\<open>fetch\<close> rejects, or gives a response with \<^verbatim>\<open>ok\<close> and a text. The text is searched
  for \<^verbatim>\<open>/MD5\([^)]+\)= ([a-f0-9]{32})/\<close>; \<open>md5Regex s\<close> is group 1 of the match that starts at the
  first character of \<open>s\<close> (the greedy \<^verbatim>\<open>[^)]+\<close> ends at the first closing parenthesis), and
  \<^verbatim>\<open>text.match\<close> takes the leftmost match. \<open>None\<close> is a thrown error.
\<close>

definition md5Regex :: "string \<Rightarrow> string option" where
  "md5Regex s =
     (case stripPrefix ''MD5('' s of
        None \<Rightarrow> None
      | Some s1 \<Rightarrow>
          if takeWhile (\<lambda>c. c \<noteq> CHR '')'') s1 = [] then None
          else
            (case stripPrefix '')= '' (dropWhile (\<lambda>c. c \<noteq> CHR '')'') s1) of
               None \<Rightarrow> None
             | Some s2 \<Rightarrow>
                 if length (take 32 s2) = 32 \<and>
                    list_all (\<lambda>c. c \<in> set ''abcdef0123456789'') (take 32 s2)
                 then Some (take 32 s2) else None))"

fun matchMd5 :: "string \<Rightarrow> string option" where
  "matchMd5 [] = None"
| "matchMd5 (c # cs) =
     (case md5Regex (c # cs) of None \<Rightarrow> matchMd5 cs | Some h \<Rightarrow> Some h)"

datatype md5_fetch = Md5Rejected | Md5Response bool string

definition getMd5 :: "md5_fetch \<Rightarrow> string option" where
  "getMd5 r =
     (case r of
        Md5Rejected \<Rightarrow> None
      | Md5Response ok text \<Rightarrow> if \<not> ok then None else matchMd5 text)"

definition truthy :: "string option \<Rightarrow> bool" where
  "truthy v = (case v of None \<Rightarrow> False | Some x \<Rightarrow> x \<noteq> [])"

definition verified :: "nat \<Rightarrow> Downloader \<Rightarrow> Downloader" where
  "verified p s = update_task (task_of s p) (\<lambda>t. t\<lparr>status := Verified\<rparr>) s"

definition hashMismatch :: "nat \<Rightarrow> Downloader \<Rightarrow> Downloader" where
  "hashMismatch p s =
     (let i = task_of s p;
          s1 = update_task i (\<lambda>t. t\<lparr>status := Pending\<rparr>) s
      in s1\<lparr>downloadQueue := i # downloadQueue s1\<rparr>)"

definition verifyError :: "nat \<Rightarrow> Downloader \<Rightarrow> Downloader" where
  "verifyError p s =
     (let i = task_of s p;
          s1 = update_task i (\<lambda>t. t\<lparr>status := Pending\<rparr>) s
      in s1\<lparr>downloadQueue := i # downloadQueue s1\<rparr>)"

definition verifyFinally :: "nat \<Rightarrow> Downloader \<Rightarrow> Downloader" where
  "verifyFinally p s =
     set_phase p AwaitSave (update_task (task_of s p) (\<lambda>t. t\<lparr>progress := None\<rparr>) s)"

definition hashSettled :: "nat \<Rightarrow> string option \<Rightarrow> Downloader \<Rightarrow> Downloader" where
  "hashSettled p localHash s =
     (case progress (tasks s ! task_of s p) of
        None \<Rightarrow> verifyFinally p (verifyError p s)
      | Some (b, tot) \<Rightarrow>
          set_phase p (AwaitMd5 localHash)
            (update_task (task_of s p) (\<lambda>t. t\<lparr>progress := Some (50, tot)\<rparr>) s))"

definition md5Settled :: "nat \<Rightarrow> string option \<Rightarrow> string option \<Rightarrow> Downloader \<Rightarrow> Downloader" where
  "md5Settled p localHash remoteMd5 s =
     (case progress (tasks s ! task_of s p) of
        None \<Rightarrow> verifyFinally p (verifyError p s)
      | Some (b, tot) \<Rightarrow>
          let i = task_of s p;
              s1 = update_task i (\<lambda>t. t\<lparr>progress := Some (75, tot)\<rparr>) s
          in if \<not> truthy localHash \<or> \<not> truthy remoteMd5 then verifyFinally p (verifyError p s1)
             else
               let s2 = update_task i (\<lambda>t. t\<lparr>progress := Some (100, tot)\<rparr>) s1
               in if localHash = remoteMd5 then verifyFinally p (verified p s2)
                  else verifyFinally p (hashMismatch p s2))"

text \<open>
  \<^verbatim>\<open>onProgress\<close> resolves: the promise of the job settles and its \<^verbatim>\<open>finally\<close> callback deletes
  the filename from the map of its pool.
\<close>

definition saveSettled :: "nat \<Rightarrow> Downloader \<Rightarrow> Downloader" where
  "saveSettled p s =
     (let f = filename (tasks s ! task_of s p);
          s1 = set_phase p Settled s
      in case job_kind (jobs s ! p) of
           Download \<Rightarrow> s1\<lparr>activeDownloads := AList.delete f (activeDownloads s1)\<rparr>
         | Verification \<Rightarrow>
             s1\<lparr>activeVerifications := AList.delete f (activeVerifications s1)\<rparr>)"

subsection \<open>start\<close>

text \<open>
  \<^verbatim>\<open>Promise.all([this.processDownloads(), this.processVerifications()])\<close> calls the two
  functions in this order, each up to its first \<^verbatim>\<open>await\<close>. \<open>resumeStart\<close> is \<^verbatim>\<open>start\<close> after a
  \<^verbatim>\<open>Promise.all\<close> has resolved.
\<close>

definition runPools :: "Downloader \<Rightarrow> Downloader" where
  "runPools s = processVerifications (processDownloads s)"

definition start :: "Downloader \<Rightarrow> Downloader" where
  "start s = (runPools s)\<lparr>start_state := FirstPass\<rparr>"

definition resumeStart :: "Downloader \<Rightarrow> Downloader" where
  "resumeStart s =
     (case start_state s of
        FirstPass \<Rightarrow>
          if length (downloadQueue s) > 0 then (runPools s)\<lparr>start_state := SecondPass\<rparr>
          else s\<lparr>start_state := Finished\<rparr>
      | SecondPass \<Rightarrow> s\<lparr>start_state := Finished\<rparr>
      | _ \<Rightarrow> s)"

subsection \<open>The event loop\<close>

text \<open>
  An event resumes one suspended computation: \<^verbatim>\<open>start\<close> is called, an awaited operation of
  job \<open>p\<close> settles with the given outcome, a loop wakes because a promise it races has settled
  or its timer has fired, or \<^verbatim>\<open>start\<close> wakes because both loops have returned. \<open>step\<close> is \<open>None\<close>
  when the event cannot happen in the state.
\<close>

datatype event =
    Start
  | FetchSettled nat fetch_result
  | ReadChunk nat nat
  | ReadDone nat
  | ReadFailed nat
  | HashSettled nat "string option"
  | Md5Settled nat md5_fetch
  | SaveSettled nat
  | WakeDownloads
  | WakeVerifications
  | WakeStart

definition awaiting :: "Downloader \<Rightarrow> nat \<Rightarrow> kind \<Rightarrow> phase \<Rightarrow> bool" where
  "awaiting s p k ph \<longleftrightarrow>
     p < length (jobs s) \<and> job_kind (jobs s ! p) = k \<and> job_phase (jobs s ! p) = ph"

definition settled :: "Downloader \<Rightarrow> nat \<Rightarrow> bool" where
  "settled s p \<longleftrightarrow> p < length (jobs s) \<and> job_phase (jobs s ! p) = Settled"

definition raceWon :: "Downloader \<Rightarrow> loop \<Rightarrow> bool" where
  "raceWon s l = (case l of Racing ps \<Rightarrow> list_ex (settled s) ps | _ \<Rightarrow> False)"

fun step :: "Downloader \<Rightarrow> event \<Rightarrow> Downloader option" where
  "step s Start = (if start_state s = NotStarted then Some (start s) else None)"
| "step s (FetchSettled p r) =
     (if awaiting s p Download AwaitFetch then Some (fetchSettled p r s) else None)"
| "step s (ReadChunk p n) =
     (if awaiting s p Download AwaitRead then Some (readChunk p n s) else None)"
| "step s (ReadDone p) =
     (if awaiting s p Download AwaitRead then Some (downloadSucceeded p s) else None)"
| "step s (ReadFailed p) =
     (if awaiting s p Download AwaitRead then Some (downloadFailed p s) else None)"
| "step s (HashSettled p localHash) =
     (if awaiting s p Verification AwaitHash then Some (hashSettled p localHash s) else None)"
| "step s (Md5Settled p r) =
     (if p < length (jobs s) \<and> job_kind (jobs s ! p) = Verification then
        (case job_phase (jobs s ! p) of
           AwaitMd5 localHash \<Rightarrow> Some (md5Settled p localHash (getMd5 r) s)
         | _ \<Rightarrow> None)
      else None)"
| "step s (SaveSettled p) =
     (if p < length (jobs s) \<and> job_phase (jobs s ! p) = AwaitSave
      then Some (saveSettled p s) else None)"
| "step s WakeDownloads =
     (if raceWon s (downloads_loop s) then Some (processDownloads s) else None)"
| "step s WakeVerifications =
     (if verifications_loop s = Sleeping \<or> raceWon s (verifications_loop s)
      then Some (processVerifications s) else None)"
| "step s WakeStart =
     (if (start_state s = FirstPass \<or> start_state s = SecondPass) \<and>
         downloads_loop s = Returned \<and> verifications_loop s = Returned
      then Some (resumeStart s) else None)"

fun run :: "Downloader \<Rightarrow> event list \<Rightarrow> Downloader option" where
  "run s [] = Some s"
| "run s (e # es) = (case step s e of None \<Rightarrow> None | Some s' \<Rightarrow> run s' es)"

section \<open>Invariants of the downloader\<close>

text \<open>
  A job is running until it reaches \<^verbatim>\<open>await onProgress\<close>. Every task is held at most once: in
  one of the queues or by one running job. The tasks of running jobs have status
  \<^verbatim>\<open>'downloading'\<close>, and a task that is still held has fewer than \<^verbatim>\<open>MAX_RETRIES\<close> attempts.
\<close>

definition running :: "phase \<Rightarrow> bool" where
  "running ph \<longleftrightarrow> ph \<noteq> AwaitSave \<and> ph \<noteq> Settled"

definition busy_tasks :: "job list \<Rightarrow> nat list" where
  "busy_tasks js = map job_task (filter (\<lambda>j. running (job_phase j)) js)"

lemma busy_tasks_append [simp]: "busy_tasks (js @ ks) = busy_tasks js @ busy_tasks ks"
  by (simp add: busy_tasks_def)

lemma busy_tasks_Nil [simp]: "busy_tasks [] = []"
  by (simp add: busy_tasks_def)

lemma busy_tasks_Cons [simp]:
  "busy_tasks (j # js) = (if running (job_phase j) then job_task j # busy_tasks js else busy_tasks js)"
  by (simp add: busy_tasks_def)

lemma busy_tasks_member:
  "p < length js \<Longrightarrow> running (job_phase (js ! p)) \<Longrightarrow> job_task (js ! p) \<in> set (busy_tasks js)"
  by (auto simp: busy_tasks_def)

lemma busy_tasks_memberD:
  "i \<in> set (busy_tasks js) \<Longrightarrow> \<exists>p < length js. running (job_phase (js ! p)) \<and> job_task (js ! p) = i"
  by (auto simp: busy_tasks_def in_set_conv_nth)

lemma busy_tasks_leave:
  "p < length js \<Longrightarrow> running (job_phase (js ! p)) \<Longrightarrow> \<not> running ph \<Longrightarrow>
   distinct (busy_tasks js) \<Longrightarrow>
   distinct (busy_tasks (js[p := (js ! p)\<lparr>job_phase := ph\<rparr>])) \<and>
   set (busy_tasks (js[p := (js ! p)\<lparr>job_phase := ph\<rparr>])) =
     set (busy_tasks js) - {job_task (js ! p)}"
proof (induction js arbitrary: p)
  case Nil
  then show ?case by simp
next
  case (Cons j js)
  show ?case
  proof (cases p)
    case 0
    with Cons.prems show ?thesis
      by auto
  next
    case (Suc q)
    with Cons.prems have "job_task (js ! q) \<in> set (busy_tasks js)"
      by (auto intro: busy_tasks_member)
    with Suc Cons show ?thesis
      by auto
  qed
qed

lemma busy_tasks_stay:
  "p < length js \<Longrightarrow> running (job_phase (js ! p)) = running ph \<Longrightarrow>
   busy_tasks (js[p := (js ! p)\<lparr>job_phase := ph\<rparr>]) = busy_tasks js"
proof (induction js arbitrary: p)
  case Nil
  then show ?case by simp
next
  case (Cons j js)
  then show ?case
    by (cases p) auto
qed

definition live :: "Downloader \<Rightarrow> nat set" where
  "live s = set (downloadQueue s) \<union> set (verifyQueue s) \<union> set (busy_tasks (jobs s))"

definition own_ok :: "Downloader \<Rightarrow> bool" where
  "own_ok s \<longleftrightarrow>
     distinct (downloadQueue s @ verifyQueue s @ busy_tasks (jobs s)) \<and>
     (\<forall>i \<in> live s. i < length (tasks s))"

definition busy_ok :: "Downloader \<Rightarrow> bool" where
  "busy_ok s \<longleftrightarrow> (\<forall>i \<in> set (busy_tasks (jobs s)). status (tasks s ! i) = Downloading)"

definition att_ok :: "Downloader \<Rightarrow> bool" where
  "att_ok s \<longleftrightarrow>
     (\<forall>i < length (tasks s). attempts (tasks s ! i) \<le> MAX_RETRIES) \<and>
     (\<forall>i \<in> live s. attempts (tasks s ! i) < MAX_RETRIES)"

definition inv :: "Downloader \<Rightarrow> bool" where
  "inv s \<longleftrightarrow> own_ok s \<and> busy_ok s"

lemma nth_update_any: "xs[i := x] ! j = (if i = j \<and> i < length xs then x else xs ! j)"
  by (cases "i < length xs") (auto simp: nth_list_update list_update_beyond)

lemmas ops = update_task_def set_phase_def task_of_def Let_def nth_update_any

lemmas inv_defs = inv_def own_ok_def busy_ok_def live_def

lemma inv_loop_fields [simp]:
  "inv (s\<lparr>downloads_loop := l\<rparr>) = inv s"
  "inv (s\<lparr>verifications_loop := l\<rparr>) = inv s"
  "inv (s\<lparr>start_state := d\<rparr>) = inv s"
  "inv (s\<lparr>activeDownloads := ad\<rparr>) = inv s"
  "inv (s\<lparr>activeVerifications := av\<rparr>) = inv s"
  by (simp_all add: inv_defs)

lemma att_ok_loop_fields [simp]:
  "att_ok (s\<lparr>downloads_loop := l\<rparr>) = att_ok s"
  "att_ok (s\<lparr>verifications_loop := l\<rparr>) = att_ok s"
  "att_ok (s\<lparr>start_state := d\<rparr>) = att_ok s"
  "att_ok (s\<lparr>activeDownloads := ad\<rparr>) = att_ok s"
  "att_ok (s\<lparr>activeVerifications := av\<rparr>) = att_ok s"
  by (simp_all add: att_ok_def live_def)

lemma inv_startDownload: "inv s \<Longrightarrow> inv (startDownload s)"
  by (auto simp: inv_defs startDownload_def ops running_def split: list.splits)

lemma inv_startVerification: "inv s \<Longrightarrow> inv (startVerification s)"
  by (auto simp: inv_defs startVerification_def ops running_def split: list.splits)

lemma att_ok_startDownload: "att_ok s \<Longrightarrow> att_ok (startDownload s)"
  by (auto simp: att_ok_def live_def startDownload_def ops running_def
      split: list.splits)

lemma att_ok_startVerification: "att_ok s \<Longrightarrow> att_ok (startVerification s)"
  by (auto simp: att_ok_def live_def startVerification_def ops running_def
      split: list.splits)

lemma leave:
  assumes "inv s" "p < length (jobs s)" "running (job_phase (jobs s ! p))"
  shows "distinct (busy_tasks ((jobs s)[p := (jobs s ! p)\<lparr>job_phase := AwaitSave\<rparr>]))"
    and "set (busy_tasks ((jobs s)[p := (jobs s ! p)\<lparr>job_phase := AwaitSave\<rparr>])) =
      set (busy_tasks (jobs s)) - {job_task (jobs s ! p)}"
    and "job_task (jobs s ! p) \<in> set (busy_tasks (jobs s))"
    and "job_task (jobs s ! p) \<notin> set (downloadQueue s)"
    and "job_task (jobs s ! p) \<notin> set (verifyQueue s)"
    and "job_task (jobs s ! p) < length (tasks s)"
    and "status (tasks s ! job_task (jobs s ! p)) = Downloading"
proof -
  from assms(1) have d: "distinct (busy_tasks (jobs s))"
    by (simp add: inv_defs)
  have nb: "\<not> running AwaitSave"
    by (simp add: running_def)
  note l = busy_tasks_leave [OF assms(2,3) nb d]
  show "distinct (busy_tasks ((jobs s)[p := (jobs s ! p)\<lparr>job_phase := AwaitSave\<rparr>]))"
    by (rule conjunct1 [OF l])
  show "set (busy_tasks ((jobs s)[p := (jobs s ! p)\<lparr>job_phase := AwaitSave\<rparr>])) =
      set (busy_tasks (jobs s)) - {job_task (jobs s ! p)}"
    by (rule conjunct2 [OF l])
  show m: "job_task (jobs s ! p) \<in> set (busy_tasks (jobs s))"
    using assms(2,3) by (rule busy_tasks_member)
  with assms(1) show "job_task (jobs s ! p) \<notin> set (downloadQueue s)"
    and "job_task (jobs s ! p) \<notin> set (verifyQueue s)"
    and "job_task (jobs s ! p) < length (tasks s)"
    and "status (tasks s ! job_task (jobs s ! p)) = Downloading"
    by (auto simp: inv_defs)
qed

lemma inv_downloadSucceeded:
  assumes "inv s" "p < length (jobs s)" "running (job_phase (jobs s ! p))"
  shows "inv (downloadSucceeded p s)"
  using assms(1) leave [OF assms]
  by (auto simp: inv_defs downloadSucceeded_def ops running_def)

lemma inv_downloadFailed:
  assumes "inv s" "p < length (jobs s)" "running (job_phase (jobs s ! p))"
  shows "inv (downloadFailed p s)"
  using assms(1) leave [OF assms]
  by (auto simp: inv_defs downloadFailed_def ops running_def)

lemma att_ok_downloadSucceeded:
  assumes "inv s" "att_ok s" "p < length (jobs s)" "running (job_phase (jobs s ! p))"
  shows "att_ok (downloadSucceeded p s)"
  using assms(2) leave [OF assms(1,3,4)]
  by (auto simp: att_ok_def live_def downloadSucceeded_def ops running_def)

lemma att_ok_downloadFailed:
  assumes "inv s" "att_ok s" "p < length (jobs s)" "running (job_phase (jobs s ! p))"
  shows "att_ok (downloadFailed p s)"
proof -
  note l = leave [OF assms(1,3,4)]
  from assms(2) l(3) have a: "Suc (attempts (tasks s ! job_task (jobs s ! p))) \<le> MAX_RETRIES"
    by (auto simp: att_ok_def live_def Suc_le_eq)
  show ?thesis
    using assms(2) l a
    by (auto simp: att_ok_def live_def downloadFailed_def ops running_def simp del: Suc_le_eq)
qed

lemma fillDownloads_rule:
  assumes "P s" and "\<And>s. P s \<Longrightarrow> downloadQueue s \<noteq> [] \<Longrightarrow> P (startDownload s)"
  shows "P (fillDownloads s)"
  using assms(1)
proof (induction s rule: fillDownloads.induct)
  case (1 s)
  show ?case
  proof (cases "length (downloadQueue s) > 0 \<and> length (activeDownloads s) < CONCURRENT_DOWNLOADS")
    case True
    with 1 assms(2) show ?thesis
      by (subst fillDownloads.simps) auto
  next
    case False
    with 1 show ?thesis
      by (subst fillDownloads.simps) auto
  qed
qed

lemma fillVerifications_rule:
  assumes "P s" and "\<And>s. P s \<Longrightarrow> verifyQueue s \<noteq> [] \<Longrightarrow> P (startVerification s)"
  shows "P (fillVerifications s)"
  using assms(1)
proof (induction s rule: fillVerifications.induct)
  case (1 s)
  show ?case
  proof (cases "length (verifyQueue s) > 0 \<and>
      length (activeVerifications s) < CONCURRENT_VERIFICATIONS")
    case True
    with 1 assms(2) show ?thesis
      by (subst fillVerifications.simps) auto
  next
    case False
    with 1 show ?thesis
      by (subst fillVerifications.simps) auto
  qed
qed

lemma processDownloads_fill:
  "\<exists>l. processDownloads s = (fillDownloads s)\<lparr>downloads_loop := l\<rparr>"
proof (cases "length (downloadQueue s) > 0 \<or> length (activeDownloads s) > 0")
  case True
  then have "activeDownloads (fillDownloads s) \<noteq> []"
    by (intro fillDownloads_active) auto
  with True show ?thesis
    by (subst processDownloads.simps) (auto simp: Let_def)
next
  case False
  then have "fillDownloads s = s"
    by (subst fillDownloads.simps) auto
  with False show ?thesis
    by (subst processDownloads.simps) auto
qed

lemma processVerifications_fill:
  "\<exists>l. processVerifications s = (fillVerifications s)\<lparr>verifications_loop := l\<rparr>"
proof (cases "verifyQueue s = []")
  case True
  then have f: "fillVerifications s = s"
    by (subst fillVerifications.simps) auto
  show ?thesis
  proof (cases "activeVerifications s = []")
    case True
    with \<open>verifyQueue s = []\<close> show ?thesis
      unfolding f by (subst processVerifications.simps) (auto simp: CONCURRENT_VERIFICATIONS_def)
  next
    case False
    with \<open>verifyQueue s = []\<close> show ?thesis
      unfolding f by (subst processVerifications.simps) (auto simp: f Let_def)
  qed
next
  case False
  then have "activeVerifications (fillVerifications s) \<noteq> []"
    by (intro fillVerifications_active) auto
  with False show ?thesis
    by (subst processVerifications.simps) (auto simp: Let_def)
qed


lemma inv_stay:
  assumes "inv s" "p < length (jobs s)" "running (job_phase (jobs s ! p))" "running ph"
    "\<And>t. status (f t) = status t"
  shows "inv (set_phase p ph (update_task (task_of s p) f s))"
  using assms(1,5) busy_tasks_stay [of p "jobs s" ph] assms(2,3,4)
  by (auto simp: inv_defs ops)

lemma att_ok_stay:
  assumes "att_ok s" "p < length (jobs s)" "running (job_phase (jobs s ! p))" "running ph"
    "\<And>t. attempts (f t) = attempts t"
  shows "att_ok (set_phase p ph (update_task (task_of s p) f s))"
  using assms(1,5) busy_tasks_stay [of p "jobs s" ph] assms(2,3,4)
  by (auto simp: att_ok_def live_def ops)

lemma inv_update_task:
  assumes "inv s" "\<And>t. status (f t) = status t"
  shows "inv (update_task i f s)"
  using assms by (auto simp: inv_defs ops)

lemma att_ok_update_task:
  assumes "att_ok s" "\<And>t. attempts (f t) = attempts t"
  shows "att_ok (update_task i f s)"
  using assms by (auto simp: att_ok_def live_def ops)

lemma inv_fetchSettled:
  assumes "inv s" "p < length (jobs s)" "running (job_phase (jobs s ! p))"
  shows "inv (fetchSettled p r s)"
  using assms
  by (auto simp: fetchSettled_def running_def split: fetch_result.splits
      intro!: inv_downloadFailed inv_stay)

lemma att_ok_fetchSettled:
  assumes "inv s" "att_ok s" "p < length (jobs s)" "running (job_phase (jobs s ! p))"
  shows "att_ok (fetchSettled p r s)"
  using assms
  by (auto simp: fetchSettled_def running_def split: fetch_result.splits
      intro!: att_ok_downloadFailed att_ok_stay)

lemma inv_readChunk:
  assumes "inv s" "p < length (jobs s)" "running (job_phase (jobs s ! p))"
  shows "inv (readChunk p n s)"
  using assms
  by (auto simp: readChunk_def split: option.splits intro!: inv_downloadFailed inv_update_task)

lemma att_ok_readChunk:
  assumes "inv s" "att_ok s" "p < length (jobs s)" "running (job_phase (jobs s ! p))"
  shows "att_ok (readChunk p n s)"
  using assms
  by (auto simp: readChunk_def split: option.splits
      intro!: att_ok_downloadFailed att_ok_update_task)

lemma inv_verify_leave:
  assumes "inv s" "p < length (jobs s)" "running (job_phase (jobs s ! p))"
  shows "inv (verifyFinally p (verifyError p s))" "inv (verifyFinally p (hashMismatch p s))"
    "inv (verifyFinally p (verified p s))"
  using assms(1) leave [OF assms]
  by (auto simp: inv_defs verifyFinally_def verifyError_def hashMismatch_def verified_def ops
      running_def)

lemma att_ok_verify_leave:
  assumes "inv s" "att_ok s" "p < length (jobs s)" "running (job_phase (jobs s ! p))"
  shows "att_ok (verifyFinally p (verifyError p s))"
    "att_ok (verifyFinally p (hashMismatch p s))"
    "att_ok (verifyFinally p (verified p s))"
  using assms(2) leave [OF assms(1,3,4)]
  by (auto simp: att_ok_def live_def verifyFinally_def verifyError_def hashMismatch_def
      verified_def ops running_def)

lemma update_task_preserves_job [simp]:
  "p < length (jobs (update_task i f s)) \<longleftrightarrow> p < length (jobs s)"
  "jobs (update_task i f s) ! p = jobs s ! p"
  by (simp_all add: ops)

lemma inv_hashSettled:
  assumes "inv s" "p < length (jobs s)" "running (job_phase (jobs s ! p))"
  shows "inv (hashSettled p h s)"
  using assms
  by (auto simp: hashSettled_def running_def split: option.splits
      intro!: inv_verify_leave inv_stay)

lemma att_ok_hashSettled:
  assumes "inv s" "att_ok s" "p < length (jobs s)" "running (job_phase (jobs s ! p))"
  shows "att_ok (hashSettled p h s)"
  using assms
  by (auto simp: hashSettled_def running_def split: option.splits
      intro!: att_ok_verify_leave att_ok_stay)

lemma inv_md5Settled:
  assumes "inv s" "p < length (jobs s)" "running (job_phase (jobs s ! p))"
  shows "inv (md5Settled p h m s)"
  using assms
  by (auto simp: md5Settled_def Let_def split: option.splits
      intro!: inv_verify_leave inv_update_task)

lemma att_ok_md5Settled:
  assumes "inv s" "att_ok s" "p < length (jobs s)" "running (job_phase (jobs s ! p))"
  shows "att_ok (md5Settled p h m s)"
  using assms
  by (auto simp: md5Settled_def Let_def split: option.splits
      intro!: att_ok_verify_leave att_ok_update_task inv_update_task)

lemma busy_saveSettled:
  "p < length (jobs s) \<Longrightarrow> job_phase (jobs s ! p) = AwaitSave \<Longrightarrow>
   busy_tasks (jobs (saveSettled p s)) = busy_tasks (jobs s)"
  using busy_tasks_stay [of p "jobs s" Settled]
  by (auto simp: saveSettled_def ops running_def split: kind.splits)

lemma frame_saveSettled [simp]:
  "tasks (saveSettled p s) = tasks s" "downloadQueue (saveSettled p s) = downloadQueue s"
  "verifyQueue (saveSettled p s) = verifyQueue s"
  by (auto simp: saveSettled_def ops split: kind.splits)

lemma inv_saveSettled:
  "inv s \<Longrightarrow> p < length (jobs s) \<Longrightarrow> job_phase (jobs s ! p) = AwaitSave \<Longrightarrow>
   inv (saveSettled p s)"
  by (simp add: inv_defs busy_saveSettled)

lemma att_ok_saveSettled:
  "att_ok s \<Longrightarrow> p < length (jobs s) \<Longrightarrow> job_phase (jobs s ! p) = AwaitSave \<Longrightarrow>
   att_ok (saveSettled p s)"
  by (simp add: att_ok_def live_def busy_saveSettled)

lemma inv_fillDownloads: "inv s \<Longrightarrow> inv (fillDownloads s)"
  by (rule fillDownloads_rule) (auto intro: inv_startDownload)

lemma inv_fillVerifications: "inv s \<Longrightarrow> inv (fillVerifications s)"
  by (rule fillVerifications_rule) (auto intro: inv_startVerification)

lemma att_ok_fillDownloads: "att_ok s \<Longrightarrow> att_ok (fillDownloads s)"
  by (rule fillDownloads_rule) (auto intro: att_ok_startDownload)

lemma att_ok_fillVerifications: "att_ok s \<Longrightarrow> att_ok (fillVerifications s)"
  by (rule fillVerifications_rule) (auto intro: att_ok_startVerification)

lemma inv_processDownloads: "inv s \<Longrightarrow> inv (processDownloads s)"
  using processDownloads_fill [of s] by (auto simp: inv_fillDownloads)

lemma inv_processVerifications: "inv s \<Longrightarrow> inv (processVerifications s)"
  using processVerifications_fill [of s] by (auto simp: inv_fillVerifications)

lemma att_ok_processDownloads: "att_ok s \<Longrightarrow> att_ok (processDownloads s)"
  using processDownloads_fill [of s] by (auto simp: att_ok_fillDownloads)

lemma att_ok_processVerifications: "att_ok s \<Longrightarrow> att_ok (processVerifications s)"
  using processVerifications_fill [of s] by (auto simp: att_ok_fillVerifications)

lemma inv_runPools: "inv s \<Longrightarrow> inv (runPools s)"
  by (simp add: runPools_def inv_processDownloads inv_processVerifications)

lemma att_ok_runPools: "att_ok s \<Longrightarrow> att_ok (runPools s)"
  by (simp add: runPools_def att_ok_processDownloads att_ok_processVerifications)

lemma running_phases [simp]:
  "running AwaitFetch" "running AwaitRead" "running AwaitHash" "running (AwaitMd5 h)"
  "\<not> running AwaitSave" "\<not> running Settled"
  by (simp_all add: running_def)

lemma inv_step:
  assumes "inv s" "step s e = Some s'"
  shows "inv s'"
proof (cases e)
  case (Md5Settled p m)
  with assms show ?thesis
    by (auto simp: awaiting_def split: if_splits phase.splits intro!: inv_md5Settled)
qed (use assms in \<open>auto simp: awaiting_def start_def resumeStart_def
      split: if_splits driver.splits
      intro!: inv_runPools inv_fetchSettled inv_readChunk inv_downloadSucceeded
        inv_downloadFailed inv_hashSettled inv_saveSettled inv_processDownloads
        inv_processVerifications\<close>)

lemma att_ok_step:
  assumes "inv s" "att_ok s" "step s e = Some s'"
  shows "att_ok s'"
proof (cases e)
  case (Md5Settled p m)
  with assms show ?thesis
    by (auto simp: awaiting_def split: if_splits phase.splits intro!: att_ok_md5Settled)
qed (use assms in \<open>auto simp: awaiting_def start_def resumeStart_def
      split: if_splits driver.splits
      intro!: att_ok_runPools att_ok_fetchSettled att_ok_readChunk att_ok_downloadSucceeded
        att_ok_downloadFailed att_ok_hashSettled att_ok_saveSettled att_ok_processDownloads
        att_ok_processVerifications\<close>)

lemma inv_run: "inv s \<Longrightarrow> run s es = Some s' \<Longrightarrow> inv s'"
  by (induction es arbitrary: s) (auto split: option.splits dest: inv_step)

lemma att_ok_run: "inv s \<Longrightarrow> att_ok s \<Longrightarrow> run s es = Some s' \<Longrightarrow> att_ok s'"
  by (induction es arbitrary: s) (auto split: option.splits dest: inv_step att_ok_step)

lemma inv_new: "inv (new_Downloader ts)"
  by (auto simp: inv_defs new_Downloader_def)

lemma att_ok_new: "\<forall>t \<in> set ts. attempts t = 0 \<Longrightarrow> att_ok (new_Downloader ts)"
  by (auto simp: att_ok_def live_def new_Downloader_def MAX_RETRIES_def)

section \<open>Failed attempts\<close>

text \<open>
  \<open>failedDownload s e\<close> is the job whose \<^verbatim>\<open>catch\<close> block in \<^verbatim>\<open>processDownloads\<close> event \<open>e\<close> enters in
  state \<open>s\<close>; \<open>failedVerification s e\<close> is the job that event \<open>e\<close> takes to the \<^verbatim>\<open>catch\<close> block or
  to the mismatch branch of \<^verbatim>\<open>processVerifications\<close>.
\<close>

fun fetch_ok :: "fetch_result \<Rightarrow> bool" where
  "fetch_ok Rejected = False"
| "fetch_ok (Response ok hasBody tot) = (ok \<and> hasBody)"

fun failedDownload :: "Downloader \<Rightarrow> event \<Rightarrow> nat option" where
  "failedDownload s (FetchSettled p r) =
     (if awaiting s p Download AwaitFetch \<and> \<not> fetch_ok r then Some p else None)"
| "failedDownload s (ReadChunk p n) =
     (if awaiting s p Download AwaitRead \<and> progress (tasks s ! task_of s p) = None
      then Some p else None)"
| "failedDownload s (ReadFailed p) =
     (if awaiting s p Download AwaitRead then Some p else None)"
| "failedDownload s _ = None"

fun failedVerification :: "Downloader \<Rightarrow> event \<Rightarrow> nat option" where
  "failedVerification s (HashSettled p localHash) =
     (if awaiting s p Verification AwaitHash \<and> progress (tasks s ! task_of s p) = None
      then Some p else None)"
| "failedVerification s (Md5Settled p r) =
     (if p < length (jobs s) \<and> job_kind (jobs s ! p) = Verification then
        (case job_phase (jobs s ! p) of
           AwaitMd5 localHash \<Rightarrow>
             if progress (tasks s ! task_of s p) = None \<or> \<not> truthy localHash \<or>
                \<not> truthy (getMd5 r) \<or> localHash \<noteq> getMd5 r
             then Some p else None
         | _ \<Rightarrow> None)
      else None)"
| "failedVerification s _ = None"

lemma failedVerification_step:
  assumes "inv s" "failedVerification s e = Some p"
  shows "\<exists>s'. step s e = Some s' \<and>
      status (tasks s' ! task_of s p) = Pending \<and>
      progress (tasks s' ! task_of s p) = None \<and>
      attempts (tasks s' ! task_of s p) = attempts (tasks s ! task_of s p) \<and>
      downloadQueue s' = task_of s p # downloadQueue s \<and>
      verifyQueue s' = verifyQueue s"
proof (cases e)
  case (HashSettled q h)
  with assms(2) have q: "q = p" "awaiting s p Verification AwaitHash"
      "progress (tasks s ! task_of s p) = None"
    by (auto split: if_splits)
  then have "task_of s p < length (tasks s)"
    using leave(6) [OF assms(1), of p] by (simp add: awaiting_def task_of_def)
  with q HashSettled show ?thesis
    by (simp add: hashSettled_def verifyFinally_def verifyError_def ops)
next
  case (Md5Settled q m)
  with assms(2) obtain h where q: "q = p" "p < length (jobs s)"
      "job_kind (jobs s ! p) = Verification" "job_phase (jobs s ! p) = AwaitMd5 h"
      "progress (tasks s ! task_of s p) = None \<or> \<not> truthy h \<or> \<not> truthy (getMd5 m) \<or>
       h \<noteq> getMd5 m"
    by (auto split: if_splits phase.splits)
  then have "task_of s p < length (tasks s)"
    using leave(6) [OF assms(1), of p] by (simp add: task_of_def)
  with q Md5Settled show ?thesis
    by (auto simp: md5Settled_def verifyFinally_def verifyError_def hashMismatch_def ops
        split: option.splits)
qed (use assms(2) in simp_all)


text \<open>What a step that starts jobs or only schedules leaves unchanged.\<close>

definition frame :: "Downloader \<Rightarrow> Downloader \<Rightarrow> bool" where
  "frame s s' \<longleftrightarrow>
     length (tasks s') = length (tasks s) \<and>
     (\<forall>i. attempts (tasks s' ! i) = attempts (tasks s ! i)) \<and>
     (\<forall>i. status (tasks s' ! i) = Failed \<longrightarrow> status (tasks s ! i) = Failed) \<and>
     set (downloadQueue s') \<subseteq> set (downloadQueue s) \<and>
     (inv s \<longrightarrow> inv s' \<and> (\<forall>i \<in> set (downloadQueue s'). tasks s' ! i = tasks s ! i))"

lemma frame_refl: "frame s s"
  by (simp add: frame_def)

lemma frame_trans: "frame s s' \<Longrightarrow> frame s' s'' \<Longrightarrow> frame s s''"
  unfolding frame_def by (auto simp: subset_iff)

lemma frame_loop_fields [simp]:
  "frame s (s'\<lparr>downloads_loop := l\<rparr>) = frame s s'"
  "frame s (s'\<lparr>verifications_loop := l\<rparr>) = frame s s'"
  "frame s (s'\<lparr>start_state := d\<rparr>) = frame s s'"
  by (simp_all add: frame_def)

lemma frame_startDownload: "frame s (startDownload s)"
  unfolding frame_def
proof (intro conjI allI impI ballI)
  assume i: "inv s"
  then show "inv (startDownload s)"
    by (rule inv_startDownload)
  fix k
  assume "k \<in> set (downloadQueue (startDownload s))"
  with i show "tasks (startDownload s) ! k = tasks s ! k"
    by (auto simp: startDownload_def ops inv_defs split: list.splits)
qed (auto simp: startDownload_def ops split: list.splits if_splits)

lemma frame_startVerification: "frame s (startVerification s)"
  unfolding frame_def
proof (intro conjI allI impI ballI)
  assume i: "inv s"
  then show "inv (startVerification s)"
    by (rule inv_startVerification)
  fix k
  assume "k \<in> set (downloadQueue (startVerification s))"
  with i show "tasks (startVerification s) ! k = tasks s ! k"
    by (auto simp: startVerification_def ops inv_defs split: list.splits)
qed (auto simp: startVerification_def ops split: list.splits if_splits)

lemma frame_fillDownloads: "frame s (fillDownloads s)"
  by (rule fillDownloads_rule [where P = "frame s"])
     (auto intro: frame_refl frame_trans frame_startDownload)

lemma frame_fillVerifications: "frame s (fillVerifications s)"
  by (rule fillVerifications_rule [where P = "frame s"])
     (auto intro: frame_refl frame_trans frame_startVerification)

lemma frame_processDownloads: "frame s (processDownloads s)"
  using processDownloads_fill [of s] by (auto simp: frame_fillDownloads)

lemma frame_processVerifications: "frame s (processVerifications s)"
  using processVerifications_fill [of s] by (auto simp: frame_fillVerifications)

lemma frame_runPools: "frame s (runPools s)"
  unfolding runPools_def
  by (rule frame_trans [OF frame_processDownloads frame_processVerifications])

definition scheduling :: "event \<Rightarrow> bool" where
  "scheduling e \<longleftrightarrow> e = Start \<or> e = WakeDownloads \<or> e = WakeVerifications \<or> e = WakeStart"

lemma frame_scheduling:
  assumes "scheduling e" "step s e = Some s'"
  shows "frame s s'"
  using assms
  by (auto simp: scheduling_def start_def resumeStart_def frame_refl frame_runPools
      frame_processDownloads frame_processVerifications split: if_splits driver.splits)

lemma frame_SaveSettled:
  assumes "step s (SaveSettled p) = Some s'"
  shows "frame s s'"
  using assms by (auto simp: frame_def inv_saveSettled split: if_splits)

lemma failed_scheduling [simp]:
  "scheduling e \<Longrightarrow> failedDownload s e = None"
  "scheduling e \<Longrightarrow> failedVerification s e = None"
  "failedDownload s (SaveSettled p) = None" "failedVerification s (SaveSettled p) = None"
  by (auto simp: scheduling_def)

lemma event_cases:
  obtains "scheduling e" | p where "e = SaveSettled p"
  | p r where "e = FetchSettled p r" | p n where "e = ReadChunk p n"
  | p where "e = ReadDone p" | p where "e = ReadFailed p"
  | p h where "e = HashSettled p h" | p m where "e = Md5Settled p m"
  by (cases e) (auto simp: scheduling_def)

lemma step_length: "step s e = Some s' \<Longrightarrow> length (tasks s') = length (tasks s)"
proof (cases e rule: event_cases)
  case 1
  assume "step s e = Some s'"
  with 1 show ?thesis
    using frame_scheduling by (auto simp: frame_def)
qed (auto simp: fetchSettled_def readChunk_def downloadFailed_def downloadSucceeded_def
    hashSettled_def md5Settled_def verifyFinally_def verifyError_def hashMismatch_def
    verified_def ops split: if_splits fetch_result.splits option.splits phase.splits)

lemma step_attempts:
  assumes "step s e = Some s'" "i < length (tasks s)"
  shows "attempts (tasks s' ! i) =
      attempts (tasks s ! i) +
      (case failedDownload s e of None \<Rightarrow> 0 | Some p \<Rightarrow> if task_of s p = i then 1 else 0)"
proof (cases e rule: event_cases)
  case 1
  with assms show ?thesis
    using frame_scheduling [of e s s'] by (simp add: frame_def)
qed (use assms in \<open>auto simp: fetchSettled_def readChunk_def downloadFailed_def
    downloadSucceeded_def hashSettled_def md5Settled_def verifyFinally_def verifyError_def
    hashMismatch_def verified_def ops
    split: if_splits fetch_result.splits option.splits phase.splits\<close>)

lemma step_Failed:
  assumes "step s e = Some s'" "status (tasks s' ! i) = Failed" "status (tasks s ! i) \<noteq> Failed"
  shows "\<exists>p. failedDownload s e = Some p \<and> task_of s p = i"
proof (cases e rule: event_cases)
  case 1
  with assms show ?thesis
    using frame_scheduling [of e s s'] by (simp add: frame_def)
qed (use assms in \<open>auto simp: fetchSettled_def readChunk_def downloadFailed_def
    downloadSucceeded_def hashSettled_def md5Settled_def verifyFinally_def verifyError_def
    hashMismatch_def verified_def ops
    split: if_splits fetch_result.splits option.splits phase.splits\<close>)

section \<open>The retry policy\<close>

lemma failedDownload_step:
  assumes "inv s" "failedDownload s e = Some p"
  shows "\<exists>s'. step s e = Some s' \<and>
      attempts (tasks s' ! task_of s p) = attempts (tasks s ! task_of s p) + 1 \<and>
      (if attempts (tasks s ! task_of s p) + 1 < MAX_RETRIES
       then downloadQueue s' = downloadQueue s @ [task_of s p] \<and>
            status (tasks s' ! task_of s p) = Downloading
       else downloadQueue s' = downloadQueue s \<and> status (tasks s' ! task_of s p) = Failed)"
proof -
  from assms(2) have p: "p < length (jobs s)" "running (job_phase (jobs s ! p))"
    and e: "step s e = Some (downloadFailed p s)"
    by (cases e; auto simp: awaiting_def fetchSettled_def readChunk_def
        split: if_splits fetch_result.splits)+
  note l = leave [OF assms(1) p]
  from l(6,7) show ?thesis
    unfolding e by (auto simp: downloadFailed_def ops)
qed

lemma run_append:
  "run s (es @ fs) = (case run s es of None \<Rightarrow> None | Some s' \<Rightarrow> run s' fs)"
  by (induction es arbitrary: s) (auto split: option.splits)

lemma run_length: "run s es = Some s' \<Longrightarrow> length (tasks s') = length (tasks s)"
  by (induction es arbitrary: s) (auto split: option.splits dest: step_length)

text \<open>
  The number of failed download attempts of task \<open>i\<close> in a run: the events of the run that enter
  the \<^verbatim>\<open>catch\<close> block of a download job of task \<open>i\<close>.
\<close>

fun failures :: "Downloader \<Rightarrow> event list \<Rightarrow> nat \<Rightarrow> nat" where
  "failures s [] i = 0"
| "failures s (e # es) i =
     (case failedDownload s e of None \<Rightarrow> 0 | Some p \<Rightarrow> if task_of s p = i then 1 else 0) +
     (case step s e of None \<Rightarrow> 0 | Some s' \<Rightarrow> failures s' es i)"

lemma run_attempts:
  "run s es = Some s' \<Longrightarrow> i < length (tasks s) \<Longrightarrow>
   attempts (tasks s' ! i) = attempts (tasks s ! i) + failures s es i"
proof (induction es arbitrary: s)
  case Nil
  then show ?case by simp
next
  case (Cons e es)
  then obtain s1 where s1: "step s e = Some s1" "run s1 es = Some s'"
    by (auto split: option.splits)
  from step_attempts [OF s1(1) Cons.prems(2)] Cons.IH [OF s1(2)] step_length [OF s1(1)]
    Cons.prems(2) s1(1)
  show ?case
    by simp
qed

text \<open>
  Claim C1. In a run from tasks that start with no attempts (as \<^verbatim>\<open>createTask\<close> makes them):
  the attempts of a task never exceed \<^verbatim>\<open>MAX_RETRIES\<close> and equal the number of its failed
  download attempts; a failed download attempt adds exactly one to the attempts of its task
  and then, when the new count is below \<^verbatim>\<open>MAX_RETRIES\<close>, appends the task to the download queue
  with its status unchanged, and otherwise sets the status to Failed and leaves the queue
  alone; and a step that takes a task to Failed is a failed download attempt of that task
  after which its attempts, and the number of its failed download attempts, are exactly
  \<^verbatim>\<open>MAX_RETRIES\<close>.
\<close>

theorem retry_policy:
  assumes "\<forall>t \<in> set ts. attempts t = 0" and "run (new_Downloader ts) evs = Some s"
  shows "(\<forall>i < length ts.
            attempts (tasks s ! i) \<le> MAX_RETRIES \<and>
            attempts (tasks s ! i) = failures (new_Downloader ts) evs i) \<and>
         (\<forall>e p. failedDownload s e = Some p \<longrightarrow>
            (\<exists>s'. step s e = Some s' \<and>
               attempts (tasks s' ! task_of s p) = attempts (tasks s ! task_of s p) + 1 \<and>
               (if attempts (tasks s ! task_of s p) + 1 < MAX_RETRIES
                then downloadQueue s' = downloadQueue s @ [task_of s p] \<and>
                     status (tasks s' ! task_of s p) = status (tasks s ! task_of s p)
                else downloadQueue s' = downloadQueue s \<and>
                     status (tasks s' ! task_of s p) = Failed))) \<and>
         (\<forall>e s' i. step s e = Some s' \<and> status (tasks s ! i) \<noteq> Failed \<and>
            status (tasks s' ! i) = Failed \<longrightarrow>
            (\<exists>p. failedDownload s e = Some p \<and> task_of s p = i) \<and>
            attempts (tasks s' ! i) = MAX_RETRIES \<and>
            failures (new_Downloader ts) (evs @ [e]) i = MAX_RETRIES)"
proof (intro conjI allI impI)
  note i = inv_run [OF inv_new assms(2)]
  note a = att_ok_run [OF inv_new att_ok_new [OF assms(1)] assms(2)]
  have len: "length (tasks s) = length ts"
    using run_length [OF assms(2)] by (simp add: new_Downloader_def)
  have zero: "attempts (tasks (new_Downloader ts) ! k) = 0" if "k < length ts" for k
    using assms(1) that by (simp add: new_Downloader_def)
  {
    fix k
    assume k: "k < length ts"
    with a len show "attempts (tasks s ! k) \<le> MAX_RETRIES"
      by (simp add: att_ok_def)
    from k run_attempts [OF assms(2), of k] zero [OF k]
    show "attempts (tasks s ! k) = failures (new_Downloader ts) evs k"
      by (simp add: new_Downloader_def)
  }
  {
    fix e p
    assume f: "failedDownload s e = Some p"
    then have p: "p < length (jobs s)" "running (job_phase (jobs s ! p))"
      by (cases e; auto simp: awaiting_def split: if_splits)+
    from leave(7) [OF i p] failedDownload_step [OF i f]
    show "\<exists>s'. step s e = Some s' \<and>
        attempts (tasks s' ! task_of s p) = attempts (tasks s ! task_of s p) + 1 \<and>
        (if attempts (tasks s ! task_of s p) + 1 < MAX_RETRIES
         then downloadQueue s' = downloadQueue s @ [task_of s p] \<and>
              status (tasks s' ! task_of s p) = status (tasks s ! task_of s p)
         else downloadQueue s' = downloadQueue s \<and> status (tasks s' ! task_of s p) = Failed)"
      by (auto simp: task_of_def)
  }
  {
    fix e s' k
    assume h: "step s e = Some s' \<and> status (tasks s ! k) \<noteq> Failed \<and>
        status (tasks s' ! k) = Failed"
    then obtain p where f: "failedDownload s e = Some p" "task_of s p = k"
      using step_Failed [of s e s' k] by blast
    then show "\<exists>p. failedDownload s e = Some p \<and> task_of s p = k"
      by blast
    from f have p: "p < length (jobs s)" "running (job_phase (jobs s ! p))"
      by (cases e; auto simp: awaiting_def split: if_splits)+
    note l = leave [OF i p]
    from l(3) a have lt: "attempts (tasks s ! k) < MAX_RETRIES"
      using f(2) by (auto simp: att_ok_def live_def task_of_def)
    from failedDownload_step [OF i f(1)] h f(2)
    have "attempts (tasks s' ! k) = attempts (tasks s ! k) + 1"
      and "\<not> attempts (tasks s ! k) + 1 < MAX_RETRIES"
      by (auto split: if_splits)
    with lt show m: "attempts (tasks s' ! k) = MAX_RETRIES"
      by simp
    have k: "k < length ts"
      using l(6) f(2) len by (simp add: task_of_def)
    have "run (new_Downloader ts) (evs @ [e]) = Some s'"
      using assms(2) h by (simp add: run_append)
    from run_attempts [OF this, of k] k zero [OF k] m
    show "failures (new_Downloader ts) (evs @ [e]) k = MAX_RETRIES"
      by (simp add: new_Downloader_def)
  }
qed


theorem retry_policy_witness:
  "\<exists>s s'. run (new_Downloader [createTask ''c.gz'' Pending])
            [Start, FetchSettled 0 Rejected, SaveSettled 0, WakeDownloads,
             FetchSettled 1 Rejected, SaveSettled 1, WakeDownloads] = Some s \<and>
     step s (FetchSettled 2 Rejected) = Some s' \<and>
     attempts (tasks s ! 0) = 2 \<and> downloadQueue s = [] \<and>
     attempts (tasks s' ! 0) = MAX_RETRIES \<and> status (tasks s' ! 0) = Failed \<and>
     downloadQueue s' = [] \<and>
     failures (new_Downloader [createTask ''c.gz'' Pending])
       ([Start, FetchSettled 0 Rejected, SaveSettled 0, WakeDownloads,
         FetchSettled 1 Rejected, SaveSettled 1, WakeDownloads] @ [FetchSettled 2 Rejected]) 0 =
       MAX_RETRIES"
proof -
  let ?ts = "[createTask ''c.gz'' Pending]"
  let ?evs = "[Start, FetchSettled 0 Rejected, SaveSettled 0, WakeDownloads,
      FetchSettled 1 Rejected, SaveSettled 1, WakeDownloads]"
  let ?e = "FetchSettled 2 Rejected"
  have z: "\<forall>t \<in> set ?ts. attempts t = 0"
    by (simp add: createTask_def)
  have "run (new_Downloader ?ts) ?evs \<noteq> None"
    by code_simp
  then obtain s where r: "run (new_Downloader ?ts) ?evs = Some s"
    by blast
  have "map_option (\<lambda>s. (failedDownload s ?e, task_of s 2, attempts (tasks s ! 0),
      status (tasks s ! 0), downloadQueue s)) (run (new_Downloader ?ts) ?evs) =
      Some (Some 2, 0, 2, Downloading, [])"
    by code_simp
  then have f: "failedDownload s ?e = Some 2" and t: "task_of s 2 = 0"
    and a: "attempts (tasks s ! 0) = 2" and st: "status (tasks s ! 0) = Downloading"
    and q: "downloadQueue s = []"
    unfolding r by simp_all
  note T = retry_policy [OF z r]
  from T f obtain s' where s': "step s ?e = Some s'"
    and a': "attempts (tasks s' ! task_of s 2) = attempts (tasks s ! task_of s 2) + 1"
    and c: "if attempts (tasks s ! task_of s 2) + 1 < MAX_RETRIES
       then downloadQueue s' = downloadQueue s @ [task_of s 2] \<and>
            status (tasks s' ! task_of s 2) = status (tasks s ! task_of s 2)
       else downloadQueue s' = downloadQueue s \<and> status (tasks s' ! task_of s 2) = Failed"
    by blast
  from c a t q have fl: "status (tasks s' ! 0) = Failed" and q': "downloadQueue s' = []"
    by (simp_all add: MAX_RETRIES_def)
  from a' a t have m: "attempts (tasks s' ! 0) = MAX_RETRIES"
    by (simp add: MAX_RETRIES_def)
  have "step s ?e = Some s' \<and> status (tasks s ! 0) \<noteq> Failed \<and>
      status (tasks s' ! 0) = Failed"
    using s' st fl by simp
  from T [THEN conjunct2, THEN conjunct2, rule_format, OF this]
  have "failures (new_Downloader ?ts) (?evs @ [?e]) 0 = MAX_RETRIES"
    by simp
  with r s' a q m fl q' show ?thesis
    by blast
qed

section \<open>Failed verifications\<close>

text \<open>
  Claim C2. In every state of a run, an event that makes a verification fail (the
  \<^verbatim>\<open>catch\<close> block or the mismatch branch is entered) sets the status of the task to Pending,
  puts the task in front of all tasks waiting in the download queue and leaves its attempts
  unchanged. A verification job whose \<^verbatim>\<open>getMd5\<close> settles fails whenever the local hash is
  missing, the remote hash is missing, or the two differ.
\<close>

theorem verification_failure_requeues:
  assumes "run (new_Downloader ts) evs = Some s"
  shows "(\<forall>e p. failedVerification s e = Some p \<longrightarrow>
            (\<exists>s'. step s e = Some s' \<and>
               status (tasks s' ! task_of s p) = Pending \<and>
               downloadQueue s' = task_of s p # downloadQueue s \<and>
               attempts (tasks s' ! task_of s p) = attempts (tasks s ! task_of s p))) \<and>
         (\<forall>p localHash r.
            p < length (jobs s) \<and> job_kind (jobs s ! p) = Verification \<and>
            job_phase (jobs s ! p) = AwaitMd5 localHash \<and>
            (localHash = None \<or> getMd5 r = None \<or> localHash \<noteq> getMd5 r) \<longrightarrow>
            failedVerification s (Md5Settled p r) = Some p)"
proof (intro conjI allI impI)
  note i = inv_run [OF inv_new assms]
  fix e p
  assume "failedVerification s e = Some p"
  from failedVerification_step [OF i this]
  show "\<exists>s'. step s e = Some s' \<and>
      status (tasks s' ! task_of s p) = Pending \<and>
      downloadQueue s' = task_of s p # downloadQueue s \<and>
      attempts (tasks s' ! task_of s p) = attempts (tasks s ! task_of s p)"
    by blast
next
  fix p localHash r
  assume "p < length (jobs s) \<and> job_kind (jobs s ! p) = Verification \<and>
      job_phase (jobs s ! p) = AwaitMd5 localHash \<and>
      (localHash = None \<or> getMd5 r = None \<or> localHash \<noteq> getMd5 r)"
  then show "failedVerification s (Md5Settled p r) = Some p"
    by (auto simp: truthy_def)
qed

theorem verification_failure_requeues_witness:
  "\<exists>s s'. run (new_Downloader [createTask ''a.gz'' Pending, createTask ''d.gz'' Downloaded])
       [Start, FetchSettled 0 Rejected, HashSettled 1 (Some ''0123456789abcdef0123456789abcdef'')]
       = Some s \<and>
     downloadQueue s = [0] \<and> attempts (tasks s ! 1) = 0 \<and>
     step s (Md5Settled 1
       (Md5Response True ''MD5(d.gz)= ffffffffffffffffffffffffffffffff'')) = Some s' \<and>
     status (tasks s' ! 1) = Pending \<and> downloadQueue s' = [1, 0] \<and>
     attempts (tasks s' ! 1) = 0"
proof -
  let ?ts = "[createTask ''a.gz'' Pending, createTask ''d.gz'' Downloaded]"
  let ?evs = "[Start, FetchSettled 0 Rejected,
      HashSettled 1 (Some ''0123456789abcdef0123456789abcdef'')]"
  let ?m = "Md5Response True ''MD5(d.gz)= ffffffffffffffffffffffffffffffff''"
  have g: "getMd5 ?m = Some ''ffffffffffffffffffffffffffffffff''"
    by code_simp
  have "run (new_Downloader ?ts) ?evs \<noteq> None"
    by code_simp
  then obtain s where r: "run (new_Downloader ?ts) ?evs = Some s"
    by blast
  have "map_option (\<lambda>s. (1 < length (jobs s), job_kind (jobs s ! 1), job_phase (jobs s ! 1),
      task_of s 1, downloadQueue s, attempts (tasks s ! 1))) (run (new_Downloader ?ts) ?evs) =
      Some (True, Verification, AwaitMd5 (Some ''0123456789abcdef0123456789abcdef''), 1, [0], 0)"
    by code_simp
  then have j: "1 < length (jobs s)" "job_kind (jobs s ! 1) = Verification"
      "job_phase (jobs s ! 1) = AwaitMd5 (Some ''0123456789abcdef0123456789abcdef'')"
    and t: "task_of s 1 = 1" and q: "downloadQueue s = [0]" and a: "attempts (tasks s ! 1) = 0"
    unfolding r by simp_all
  note T = verification_failure_requeues [OF r]
  have "1 < length (jobs s) \<and> job_kind (jobs s ! 1) = Verification \<and>
      job_phase (jobs s ! 1) = AwaitMd5 (Some ''0123456789abcdef0123456789abcdef'') \<and>
      (Some ''0123456789abcdef0123456789abcdef'' = None \<or> getMd5 ?m = None \<or>
       Some ''0123456789abcdef0123456789abcdef'' \<noteq> getMd5 ?m)"
    using j unfolding g by simp
  from T [THEN conjunct2, rule_format, OF this]
  have "failedVerification s (Md5Settled 1 ?m) = Some 1" .
  from T [THEN conjunct1, rule_format, OF this] t q a r
  show ?thesis
    by auto
qed

section \<open>The status of queued tasks\<close>

lemma job_event_frame:
  assumes "inv s" "p < length (jobs s)" "running (job_phase (jobs s ! p))"
    "s' \<in> {fetchSettled p r s, readChunk p n s, downloadSucceeded p s, downloadFailed p s,
            hashSettled p h s, md5Settled p h m s}"
    "i \<in> set (downloadQueue s)"
  shows "tasks s' ! i = tasks s ! i"
proof -
  from leave(4) [OF assms(1,2,3)] assms(5) have "i \<noteq> task_of s p"
    by (auto simp: task_of_def)
  with assms(4) show ?thesis
    by (auto simp: fetchSettled_def readChunk_def downloadFailed_def downloadSucceeded_def
        hashSettled_def md5Settled_def verifyFinally_def verifyError_def hashMismatch_def
        verified_def ops split: if_splits fetch_result.splits option.splits)
qed

lemma step_queued_task:
  assumes "inv s" "step s e = Some s'" "i \<in> set (downloadQueue s)" "i \<in> set (downloadQueue s')"
  shows "tasks s' ! i = tasks s ! i"
proof (cases e rule: event_cases)
  case 1
  from frame_scheduling [OF 1 assms(2)] assms(1,4) show ?thesis
    by (simp add: frame_def)
next
  case (2 p)
  with assms show ?thesis
    by (auto split: if_splits)
next
  case (3 p r)
  with assms(2) have "p < length (jobs s)" "running (job_phase (jobs s ! p))"
    "s' = fetchSettled p r s"
    by (auto simp: awaiting_def split: if_splits)
  then show ?thesis
    using job_event_frame [OF assms(1), of p s' r _ _ _ i] assms(3) by simp
next
  case (4 p n)
  with assms(2) have "p < length (jobs s)" "running (job_phase (jobs s ! p))"
    "s' = readChunk p n s"
    by (auto simp: awaiting_def split: if_splits)
  then show ?thesis
    using job_event_frame [OF assms(1), of p s' _ n _ _ i] assms(3) by simp
next
  case (5 p)
  with assms(2) have "p < length (jobs s)" "running (job_phase (jobs s ! p))"
    "s' = downloadSucceeded p s"
    by (auto simp: awaiting_def split: if_splits)
  then show ?thesis
    using job_event_frame [OF assms(1), of p s' _ _ _ _ i] assms(3) by simp
next
  case (6 p)
  with assms(2) have "p < length (jobs s)" "running (job_phase (jobs s ! p))"
    "s' = downloadFailed p s"
    by (auto simp: awaiting_def split: if_splits)
  then show ?thesis
    using job_event_frame [OF assms(1), of p s' _ _ _ _ i] assms(3) by simp
next
  case (7 p h)
  with assms(2) have "p < length (jobs s)" "running (job_phase (jobs s ! p))"
    "s' = hashSettled p h s"
    by (auto simp: awaiting_def split: if_splits)
  then show ?thesis
    using job_event_frame [OF assms(1), of p s' _ _ h _ i] assms(3) by simp
next
  case (8 p m)
  with assms(2) obtain h where "p < length (jobs s)" "running (job_phase (jobs s ! p))"
    "s' = md5Settled p h (getMd5 m) s"
    by (auto simp: awaiting_def split: if_splits phase.splits)
  then show ?thesis
    using job_event_frame [OF assms(1), of p s' _ _ h "getMd5 m" i] assms(3) by simp
qed

lemma step_enters_queue:
  assumes "inv s" "step s e = Some s'" "i \<notin> set (downloadQueue s)" "i \<in> set (downloadQueue s')"
  shows "(\<exists>p. failedDownload s e = Some p \<and> task_of s p = i \<and>
            status (tasks s' ! i) = Downloading) \<or>
         (\<exists>p. failedVerification s e = Some p \<and> task_of s p = i \<and>
            status (tasks s' ! i) = Pending)"
proof (cases "failedDownload s e")
  case (Some p)
  from failedDownload_step [OF assms(1) Some] assms(2,3,4) show ?thesis
    using Some by (auto split: if_splits)
next
  case None
  note nd = None
  show ?thesis
  proof (cases "failedVerification s e")
    case (Some p)
    from failedVerification_step [OF assms(1) Some] assms(2,3,4) show ?thesis
      using Some by auto
  next
    case None
    have "set (downloadQueue s') \<subseteq> set (downloadQueue s)"
    proof (cases e rule: event_cases)
      case 1
      from frame_scheduling [OF 1 assms(2)] show ?thesis
        by (simp add: frame_def)
    next
      case (8 p m)
      with assms(2) None show ?thesis
        by (auto simp: md5Settled_def verifyFinally_def verified_def ops
            split: if_splits phase.splits option.splits)
    qed (use assms(2) nd None in \<open>auto simp: fetchSettled_def readChunk_def
        downloadSucceeded_def downloadFailed_def hashSettled_def awaiting_def ops
        split: if_splits fetch_result.splits option.splits\<close>)
    with assms(3,4) show ?thesis
      by blast
  qed
qed

text \<open>
  Claim C9. In every state of a run: a failed download attempt that leaves the attempts
  below \<^verbatim>\<open>MAX_RETRIES\<close> appends its task to the download queue with status Downloading; a task
  that enters the download queue in a step does so by a failed download attempt, with
  status Downloading, or by a failed verification, with status Pending; and a task that stays
  in the download queue keeps its status.
\<close>

theorem retry_keeps_downloading:
  assumes "run (new_Downloader ts) evs = Some s" and "step s e = Some s'"
  shows "(\<forall>p. failedDownload s e = Some p \<and>
            attempts (tasks s ! task_of s p) + 1 < MAX_RETRIES \<longrightarrow>
            downloadQueue s' = downloadQueue s @ [task_of s p] \<and>
            status (tasks s' ! task_of s p) = Downloading) \<and>
         (\<forall>i. i \<notin> set (downloadQueue s) \<and> i \<in> set (downloadQueue s') \<longrightarrow>
            (\<exists>p. failedDownload s e = Some p \<and> task_of s p = i \<and>
               status (tasks s' ! i) = Downloading) \<or>
            (\<exists>p. failedVerification s e = Some p \<and> task_of s p = i \<and>
               status (tasks s' ! i) = Pending)) \<and>
         (\<forall>i. i \<in> set (downloadQueue s) \<and> i \<in> set (downloadQueue s') \<longrightarrow>
            status (tasks s' ! i) = status (tasks s ! i))"
proof (intro conjI allI impI)
  note i = inv_run [OF inv_new assms(1)]
  {
    fix p
    assume "failedDownload s e = Some p \<and> attempts (tasks s ! task_of s p) + 1 < MAX_RETRIES"
    with failedDownload_step [OF i, of e p] assms(2)
    show "downloadQueue s' = downloadQueue s @ [task_of s p]"
      and "status (tasks s' ! task_of s p) = Downloading"
      by auto
  }
  {
    fix k
    assume "k \<notin> set (downloadQueue s) \<and> k \<in> set (downloadQueue s')"
    with step_enters_queue [OF i assms(2), of k]
    show "(\<exists>p. failedDownload s e = Some p \<and> task_of s p = k \<and>
            status (tasks s' ! k) = Downloading) \<or>
         (\<exists>p. failedVerification s e = Some p \<and> task_of s p = k \<and>
            status (tasks s' ! k) = Pending)"
      by blast
  }
  {
    fix k
    assume "k \<in> set (downloadQueue s) \<and> k \<in> set (downloadQueue s')"
    with step_queued_task [OF i assms(2), of k]
    show "status (tasks s' ! k) = status (tasks s ! k)"
      by simp
  }
qed


theorem retry_keeps_downloading_witness:
  "\<exists>s s'. run (new_Downloader [createTask ''c.gz'' Pending]) [Start] = Some s \<and>
     step s (FetchSettled 0 Rejected) = Some s' \<and>
     downloadQueue s = [] \<and> downloadQueue s' = [0] \<and>
     status (tasks s' ! 0) = Downloading"
proof -
  let ?ts = "[createTask ''c.gz'' Pending]"
  let ?e = "FetchSettled 0 Rejected"
  have "run (new_Downloader ?ts) [Start] \<noteq> None"
    by code_simp
  then obtain s where r: "run (new_Downloader ?ts) [Start] = Some s"
    by blast
  have "map_option (\<lambda>s. (failedDownload s ?e, task_of s 0, attempts (tasks s ! 0),
      downloadQueue s, step s ?e \<noteq> None)) (run (new_Downloader ?ts) [Start]) =
      Some (Some 0, 0, 0, [], True)"
    by code_simp
  then have f: "failedDownload s ?e = Some 0" and t: "task_of s 0 = 0"
    and a: "attempts (tasks s ! 0) = 0" and q: "downloadQueue s = []"
    and n: "step s ?e \<noteq> None"
    unfolding r by simp_all
  from n obtain s' where s': "step s ?e = Some s'"
    by blast
  have "failedDownload s ?e = Some 0 \<and> attempts (tasks s ! task_of s 0) + 1 < MAX_RETRIES"
    using f t a by (simp add: MAX_RETRIES_def)
  from retry_keeps_downloading [OF r s', THEN conjunct1, rule_format, OF this] t q r s'
  show ?thesis
    by auto
qed

section \<open>The status of a task under verification\<close>

text \<open>
  The spec names six statuses; \<open>spec_status_of\<close> reads a status of the code in the spec's
  vocabulary.
\<close>

datatype spec_status =
  SpecPending | SpecDownloading | SpecDownloaded | SpecVerifying | SpecVerified | SpecFailed

fun spec_status_of :: "status \<Rightarrow> spec_status" where
  "spec_status_of Pending = SpecPending"
| "spec_status_of Downloading = SpecDownloading"
| "spec_status_of Downloaded = SpecDownloaded"
| "spec_status_of Failed = SpecFailed"
| "spec_status_of Verified = SpecVerified"

text \<open>
  Claim C4 as stated fails: the verification pool takes the only task from the to-verify
  queue and its status is not Verifying (it is Downloading).
\<close>

theorem verification_status_counterexample:
  "verifyQueue (new_Downloader [createTask ''d.gz'' Downloaded]) = [0] \<and>
   verifyQueue (startVerification (new_Downloader [createTask ''d.gz'' Downloaded])) = [] \<and>
   spec_status_of
     (status (tasks (startVerification (new_Downloader [createTask ''d.gz'' Downloaded])) ! 0))
     \<noteq> SpecVerifying \<and>
   status (tasks (startVerification (new_Downloader [createTask ''d.gz'' Downloaded])) ! 0) =
     Downloading"
  by (simp add: new_Downloader_def createTask_def startVerification_def ops)

text \<open>
  Claim C4, amended. In every state of a run the status of a task is one of the five values
  Pending, Downloading, Downloaded, Verified, Failed; when the verification pool takes a
  task from the to-verify queue it sets its status to Downloading and its progress to
  (0, 100) and starts a verification job for it; and the status of the task of a running
  verification job is Downloading.
\<close>

theorem verification_sets_downloading:
  assumes "run (new_Downloader ts) evs = Some s"
  shows "(\<forall>i. spec_status_of (status (tasks s ! i)) \<in>
            {SpecPending, SpecDownloading, SpecDownloaded, SpecVerified, SpecFailed}) \<and>
         (\<forall>i q. verifyQueue s = i # q \<longrightarrow>
            verifyQueue (startVerification s) = q \<and>
            status (tasks (startVerification s) ! i) = Downloading \<and>
            progress (tasks (startVerification s) ! i) = Some (0, 100) \<and>
            jobs (startVerification s) =
              jobs s @ [\<lparr>job_task = i, job_kind = Verification, job_phase = AwaitHash\<rparr>]) \<and>
         (\<forall>p. p < length (jobs s) \<and> job_kind (jobs s ! p) = Verification \<and>
            running (job_phase (jobs s ! p)) \<longrightarrow>
            status (tasks s ! task_of s p) = Downloading)"
proof (intro conjI allI impI)
  note i = inv_run [OF inv_new assms]
  {
    fix k
    show "spec_status_of (status (tasks s ! k)) \<in>
        {SpecPending, SpecDownloading, SpecDownloaded, SpecVerified, SpecFailed}"
      by (cases "status (tasks s ! k)") simp_all
  }
  {
    fix k q
    assume v: "verifyQueue s = k # q"
    with i have "k < length (tasks s)"
      by (simp add: inv_defs)
    with v show "verifyQueue (startVerification s) = q"
      and "status (tasks (startVerification s) ! k) = Downloading"
      and "progress (tasks (startVerification s) ! k) = Some (0, 100)"
      and "jobs (startVerification s) =
        jobs s @ [\<lparr>job_task = k, job_kind = Verification, job_phase = AwaitHash\<rparr>]"
      by (simp_all add: startVerification_def ops)
  }
  {
    fix p
    assume "p < length (jobs s) \<and> job_kind (jobs s ! p) = Verification \<and>
        running (job_phase (jobs s ! p))"
    with leave(7) [OF i, of p] show "status (tasks s ! task_of s p) = Downloading"
      by (simp add: task_of_def)
  }
qed

theorem verification_sets_downloading_witness:
  "\<exists>s. run (new_Downloader [createTask ''a.gz'' Pending, createTask ''d.gz'' Downloaded])
       [Start, FetchSettled 0 (Response True True 7), ReadChunk 0 7, ReadDone 0] = Some s \<and>
     verifyQueue s = [0] \<and> status (tasks s ! 0) = Downloaded \<and>
     verifyQueue (startVerification s) = [] \<and>
     status (tasks (startVerification s) ! 0) = Downloading \<and>
     progress (tasks (startVerification s) ! 0) = Some (0, 100) \<and>
     status (tasks s ! 1) = Downloading"
proof -
  let ?ts = "[createTask ''a.gz'' Pending, createTask ''d.gz'' Downloaded]"
  let ?evs = "[Start, FetchSettled 0 (Response True True 7), ReadChunk 0 7, ReadDone 0]"
  have "run (new_Downloader ?ts) ?evs \<noteq> None"
    by code_simp
  then obtain s where r: "run (new_Downloader ?ts) ?evs = Some s"
    by blast
  have "map_option (\<lambda>s. (verifyQueue s, status (tasks s ! 0), 1 < length (jobs s),
      job_kind (jobs s ! 1), job_phase (jobs s ! 1), task_of s 1))
      (run (new_Downloader ?ts) ?evs) = Some ([0], Downloaded, True, Verification, AwaitHash, 1)"
    by code_simp
  then have v: "verifyQueue s = [0]" and st: "status (tasks s ! 0) = Downloaded"
    and j: "1 < length (jobs s)" "job_kind (jobs s ! 1) = Verification"
      "job_phase (jobs s ! 1) = AwaitHash"
    and t: "task_of s 1 = 1"
    unfolding r by simp_all
  note T = verification_sets_downloading [OF r]
  from T [THEN conjunct2, THEN conjunct1, rule_format, OF v]
  have a: "verifyQueue (startVerification s) = []"
    "status (tasks (startVerification s) ! 0) = Downloading"
    "progress (tasks (startVerification s) ! 0) = Some (0, 100)"
    by simp_all
  have "1 < length (jobs s) \<and> job_kind (jobs s ! 1) = Verification \<and>
      running (job_phase (jobs s ! 1))"
    using j by simp
  from T [THEN conjunct2, THEN conjunct2, rule_format, OF this] t
  have "status (tasks s ! 1) = Downloading"
    by simp
  with r v st a show ?thesis
    by blast
qed

section \<open>Progress after a download\<close>

text \<open>
  Claim C5 against the code. The \<^verbatim>\<open>finally\<close> block of a verification job deletes
  \<^verbatim>\<open>task.progress\<close>; a download job never does. After a download of 100 bytes the task is
  Downloaded and still has the progress (100, 100); after three downloads that break off
  after 40 of 100 bytes the task is Failed and still has the progress (40, 100).
\<close>

theorem download_keeps_progress:
  "(\<exists>s. run (new_Downloader (main_tasks [''pubmed25n0001.xml.gz''] []))
          [Start, FetchSettled 0 (Response True True 100), ReadChunk 0 100, ReadDone 0] =
          Some s \<and>
        status (tasks s ! 0) = Downloaded \<and> progress (tasks s ! 0) = Some (100, 100)) \<and>
   (\<exists>s. run (new_Downloader (main_tasks [''pubmed25n0001.xml.gz''] []))
          [Start, FetchSettled 0 (Response True True 100), ReadChunk 0 40, ReadFailed 0,
           SaveSettled 0, WakeDownloads,
           FetchSettled 1 (Response True True 100), ReadChunk 1 40, ReadFailed 1,
           SaveSettled 1, WakeDownloads,
           FetchSettled 2 (Response True True 100), ReadChunk 2 40, ReadFailed 2] = Some s \<and>
        status (tasks s ! 0) = Failed \<and> progress (tasks s ! 0) = Some (40, 100))"
proof -
  let ?n = "new_Downloader (main_tasks [''pubmed25n0001.xml.gz''] [])"
  let ?a = "[Start, FetchSettled 0 (Response True True 100), ReadChunk 0 100, ReadDone 0]"
  let ?b = "[Start, FetchSettled 0 (Response True True 100), ReadChunk 0 40, ReadFailed 0,
           SaveSettled 0, WakeDownloads,
           FetchSettled 1 (Response True True 100), ReadChunk 1 40, ReadFailed 1,
           SaveSettled 1, WakeDownloads,
           FetchSettled 2 (Response True True 100), ReadChunk 2 40, ReadFailed 2]"
  have "map_option (\<lambda>s. (status (tasks s ! 0), progress (tasks s ! 0))) (run ?n ?a) =
      Some (Downloaded, Some (100, 100))"
    by code_simp
  moreover have "map_option (\<lambda>s. (status (tasks s ! 0), progress (tasks s ! 0))) (run ?n ?b) =
      Some (Failed, Some (40, 100))"
    by code_simp
  ultimately show ?thesis
    by (auto simp only: map_option_eq_Some prod.inject)
qed

section \<open>Requeued tasks after the download pool has returned\<close>

text \<open>
  The state \<^verbatim>\<open>start\<close> is caught in when the only task is a local file that fails
  verification: the task waits in the download queue, \<^verbatim>\<open>processDownloads\<close> has returned and
  \<^verbatim>\<open>processVerifications\<close> sleeps 100 ms, over and over, because the download queue is not
  empty.
\<close>

definition stuck :: Downloader where
  "stuck =
     \<lparr>tasks = [createTask ''pubmed25n0001.xml.gz'' Pending],
      downloadQueue = [0], verifyQueue = [], activeDownloads = [], activeVerifications = [],
      jobs = [\<lparr>job_task = 0, job_kind = Verification, job_phase = Settled\<rparr>],
      downloads_loop = Returned, verifications_loop = Sleeping, start_state = FirstPass\<rparr>"

lemma stuck_step: "step stuck e = Some s' \<Longrightarrow> e = WakeVerifications \<and> s' = stuck"
proof (cases e)
  case WakeVerifications
  assume "step stuck e = Some s'"
  moreover have "processVerifications stuck = stuck"
    by (subst processVerifications.simps) (simp add: stuck_def CONCURRENT_VERIFICATIONS_def)
  ultimately show ?thesis
    using WakeVerifications by (simp split: if_splits)
qed (auto simp: stuck_def awaiting_def raceWon_def split: if_splits)

lemma stuck_run: "run stuck evs = Some s' \<Longrightarrow> s' = stuck"
  by (induction evs) (auto split: option.splits dest: stuck_step)

text \<open>
  Claim C3 against the code. The remote listing and the local directory both hold one file
  whose hash differs from the remote one. After the failed verification the state is
  \<open>stuck\<close>: the run is in its first pass, the task is Pending in the download queue, the only
  event that can happen is the wake-up of \<^verbatim>\<open>processVerifications\<close>, and no run leaves the state.
  The first pass never ends, the second pass never starts and the task never reaches a
  terminal state.
\<close>

theorem requeued_task_never_processed:
  "run (new_Downloader (main_tasks [''pubmed25n0001.xml.gz''] [''pubmed25n0001.xml.gz'']))
     [Start, HashSettled 0 (Some ''0123456789abcdef0123456789abcdef''),
      Md5Settled 0
        (Md5Response True ''MD5(pubmed25n0001.xml.gz)= ffffffffffffffffffffffffffffffff''),
      SaveSettled 0,
      WakeVerifications] = Some stuck \<and>
   start_state stuck = FirstPass \<and> downloadQueue stuck = [0] \<and>
   status (tasks stuck ! 0) = Pending \<and>
   (\<forall>e s'. step stuck e = Some s' \<longrightarrow> e = WakeVerifications) \<and>
   (\<forall>evs s'. run stuck evs = Some s' \<longrightarrow> s' = stuck)"
proof (intro conjI allI impI)
  show "run (new_Downloader (main_tasks [''pubmed25n0001.xml.gz''] [''pubmed25n0001.xml.gz'']))
     [Start, HashSettled 0 (Some ''0123456789abcdef0123456789abcdef''),
      Md5Settled 0
        (Md5Response True ''MD5(pubmed25n0001.xml.gz)= ffffffffffffffffffffffffffffffff''),
      SaveSettled 0,
      WakeVerifications] = Some stuck"
    by code_simp
next
  fix e s'
  assume "step stuck e = Some s'"
  then show "e = WakeVerifications"
    by (rule stuck_step [THEN conjunct1])
next
  fix evs s'
  assume "run stuck evs = Some s'"
  then show "s' = stuck"
    by (rule stuck_run)
qed (simp_all add: stuck_def createTask_def)

theorem requeued_task_never_processed_witness:
  "run stuck [WakeVerifications, WakeVerifications, WakeVerifications] = Some stuck \<and>
   step stuck WakeStart = None \<and> step stuck WakeDownloads = None"
proof -
  note T = requeued_task_never_processed [THEN conjunct2, THEN conjunct2, THEN conjunct2,
      THEN conjunct2]
  note only = T [THEN conjunct1, rule_format]
  note stay = T [THEN conjunct2, rule_format]
  have "run stuck [WakeVerifications, WakeVerifications, WakeVerifications] \<noteq> None"
    by code_simp
  then obtain s where s: "run stuck [WakeVerifications, WakeVerifications, WakeVerifications] =
      Some s"
    by blast
  from stay [OF s] s have "run stuck [WakeVerifications, WakeVerifications, WakeVerifications] =
      Some stuck"
    by simp
  moreover have "step stuck WakeStart = None"
  proof (cases "step stuck WakeStart")
    case (Some s')
    from only [OF Some] show ?thesis
      by simp
  qed simp
  moreover have "step stuck WakeDownloads = None"
  proof (cases "step stuck WakeDownloads")
    case (Some s')
    from only [OF Some] show ?thesis
      by simp
  qed simp
  ultimately show ?thesis
    by (intro conjI)
qed


section \<open>Transfers in flight\<close>

text \<open>
  The sizes of the two maps stay within the caps: a job is started only below the cap and
  adds at most one key.
\<close>

definition sizes_ok :: "Downloader \<Rightarrow> bool" where
  "sizes_ok s \<longleftrightarrow>
     length (activeDownloads s) \<le> CONCURRENT_DOWNLOADS \<and>
     length (activeVerifications s) \<le> CONCURRENT_VERIFICATIONS"

lemma length_update_le: "length (AList.update k v al) \<le> Suc (length al)"
  by (induction al) auto

lemma length_delete_le: "length (AList.delete k al) \<le> length al"
  by (simp add: AList.delete_eq)

lemma sizes_ok_fillDownloads: "sizes_ok s \<Longrightarrow> sizes_ok (fillDownloads s)"
proof (induction s rule: fillDownloads.induct)
  case (1 s)
  show ?case
  proof (cases "length (downloadQueue s) > 0 \<and> length (activeDownloads s) < CONCURRENT_DOWNLOADS")
    case True
    then have "sizes_ok (startDownload s)"
      using 1(2) length_update_le [of "filename (tasks s ! hd (downloadQueue s))"
          "length (jobs s)" "activeDownloads s"]
      by (auto simp: sizes_ok_def startDownload_def ops split: list.splits)
    with 1 True show ?thesis
      by (subst fillDownloads.simps) simp
  next
    case False
    with 1 show ?thesis
      by (subst fillDownloads.simps) auto
  qed
qed

lemma sizes_ok_fillVerifications: "sizes_ok s \<Longrightarrow> sizes_ok (fillVerifications s)"
proof (induction s rule: fillVerifications.induct)
  case (1 s)
  show ?case
  proof (cases "length (verifyQueue s) > 0 \<and>
      length (activeVerifications s) < CONCURRENT_VERIFICATIONS")
    case True
    then have "sizes_ok (startVerification s)"
      using 1(2) length_update_le [of "filename (tasks s ! hd (verifyQueue s))"
          "length (jobs s)" "activeVerifications s"]
      by (auto simp: sizes_ok_def startVerification_def ops split: list.splits)
    with 1 True show ?thesis
      by (subst fillVerifications.simps) simp
  next
    case False
    with 1 show ?thesis
      by (subst fillVerifications.simps) auto
  qed
qed

lemma sizes_ok_loop_fields [simp]:
  "sizes_ok (s\<lparr>downloads_loop := l\<rparr>) = sizes_ok s"
  "sizes_ok (s\<lparr>verifications_loop := l\<rparr>) = sizes_ok s"
  "sizes_ok (s\<lparr>start_state := d\<rparr>) = sizes_ok s"
  by (simp_all add: sizes_ok_def)

lemma sizes_ok_processDownloads: "sizes_ok s \<Longrightarrow> sizes_ok (processDownloads s)"
  using processDownloads_fill [of s] by (auto simp: sizes_ok_fillDownloads)

lemma sizes_ok_processVerifications: "sizes_ok s \<Longrightarrow> sizes_ok (processVerifications s)"
  using processVerifications_fill [of s] by (auto simp: sizes_ok_fillVerifications)

lemma sizes_ok_runPools: "sizes_ok s \<Longrightarrow> sizes_ok (runPools s)"
  by (simp add: runPools_def sizes_ok_processDownloads sizes_ok_processVerifications)

lemma sizes_ok_step:
  assumes "sizes_ok s" "step s e = Some s'"
  shows "sizes_ok s'"
proof (cases e rule: event_cases)
  case 1
  with assms show ?thesis
    by (auto simp: scheduling_def start_def resumeStart_def sizes_ok_runPools
        sizes_ok_processDownloads sizes_ok_processVerifications
        split: if_splits driver.splits)
next
  case (2 p)
  with assms show ?thesis
    using length_delete_le [of "filename (tasks s ! task_of s p)" "activeDownloads s"]
      length_delete_le [of "filename (tasks s ! task_of s p)" "activeVerifications s"]
    by (auto simp: sizes_ok_def saveSettled_def ops split: if_splits kind.splits)
qed (use assms in \<open>auto simp: sizes_ok_def fetchSettled_def readChunk_def downloadFailed_def
    downloadSucceeded_def hashSettled_def md5Settled_def verifyFinally_def verifyError_def
    hashMismatch_def verified_def ops
    split: if_splits fetch_result.splits option.splits phase.splits\<close>)

lemma sizes_ok_run:
  "run (new_Downloader ts) evs = Some s \<Longrightarrow> sizes_ok s"
proof -
  have "sizes_ok s0 \<Longrightarrow> run s0 evs = Some s \<Longrightarrow> sizes_ok s" for s0
    by (induction evs arbitrary: s0) (auto split: option.splits dest: sizes_ok_step)
  moreover have "sizes_ok (new_Downloader ts)"
    by (simp add: sizes_ok_def new_Downloader_def)
  ultimately show "run (new_Downloader ts) evs = Some s \<Longrightarrow> sizes_ok s"
    by blast
qed

text \<open>
  The downloads in flight: the download jobs inside \<^verbatim>\<open>downloadFile\<close>, awaiting the response or a
  chunk.
\<close>

definition transfers :: "Downloader \<Rightarrow> nat" where
  "transfers s =
     length (filter (\<lambda>j. job_kind j = Download \<and>
                         (job_phase j = AwaitFetch \<or> job_phase j = AwaitRead)) (jobs s))"

definition eleven_files :: "string list" where
  "eleven_files =
     [''pubmed25n0001.xml.gz'', ''pubmed25n0002.xml.gz'', ''pubmed25n0003.xml.gz'',
      ''pubmed25n0004.xml.gz'', ''pubmed25n0005.xml.gz'', ''pubmed25n0006.xml.gz'',
      ''pubmed25n0007.xml.gz'', ''pubmed25n0008.xml.gz'', ''pubmed25n0009.xml.gz'',
      ''pubmed25n0010.xml.gz'', ''pubmed25n0011.xml.gz'']"

text \<open>
  Claim C7 against the code. Eleven files are missing locally. The first four downloads are
  rejected and each task is put back in the queue before its job awaits \<^verbatim>\<open>onProgress\<close>. The
  loop wakes when the jobs of the second and the third task settle and starts the first task
  again while its first job still awaits \<^verbatim>\<open>onProgress\<close>: \<^verbatim>\<open>activeDownloads.set\<close> replaces the
  entry of the first job. When the first job settles, its \<^verbatim>\<open>finally\<close> callback deletes the
  filename, that is the entry of the second job of the task. The map then has one entry less
  than there are downloads, and after the next wake-up eleven downloads are in flight with
  ten entries in the map.
\<close>

theorem eleven_transfers_in_flight:
  "\<exists>s. run (new_Downloader (main_tasks eleven_files []))
          [Start, FetchSettled 0 Rejected, FetchSettled 1 Rejected, SaveSettled 1,
           WakeDownloads, FetchSettled 2 Rejected, SaveSettled 2, WakeDownloads,
           SaveSettled 0, FetchSettled 3 Rejected, SaveSettled 3, WakeDownloads] = Some s \<and>
        transfers s = 11 \<and> length (activeDownloads s) = 10 \<and>
        CONCURRENT_DOWNLOADS < transfers s"
proof -
  have "map_option (\<lambda>s. (transfers s, length (activeDownloads s),
      CONCURRENT_DOWNLOADS < transfers s))
      (run (new_Downloader (main_tasks eleven_files []))
          [Start, FetchSettled 0 Rejected, FetchSettled 1 Rejected, SaveSettled 1,
           WakeDownloads, FetchSettled 2 Rejected, SaveSettled 2, WakeDownloads,
           SaveSettled 0, FetchSettled 3 Rejected, SaveSettled 3, WakeDownloads]) =
      Some (11, 10, True)"
    by code_simp
  then show ?thesis
    by (auto simp only: map_option_eq_Some prod.inject simp_thms)
qed

section \<open>The progress snapshot (storage module)\<close>

text \<open>
  \<^verbatim>\<open>saveProgress\<close> writes \<^verbatim>\<open>JSON.stringify(tasks, null, 2)\<close> to the progress file and
  \<^verbatim>\<open>loadProgress\<close> returns \<^verbatim>\<open>JSON.parse\<close> of its text. A JSON value is a tree. A number is an
  integer: the numbers of a snapshot are attempts and byte counts, which \<^verbatim>\<open>JSON.stringify\<close>
  prints in decimal (below \<open>10\<^sup>2\<^sup>1\<close>). A string is a list of code units below 256.
\<close>

datatype json =
  JNull | JBool bool | JNumber int | JString string | JArray "json list"
  | JObject "(string \<times> json) list"

subsection \<open>JSON.stringify\<close>

text \<open>
  A string is quoted and escaped as \<^verbatim>\<open>JSON.stringify\<close> does: the quote, the backslash and the
  code units below 32. With the gap of two spaces, a non-empty array or object puts every
  element or member on a line of its own, indented by two more spaces, and closes on a line
  with the indentation it was opened at.
\<close>

definition hexDigit :: "nat \<Rightarrow> char" where
  "hexDigit n = ''0123456789abcdef'' ! n"

definition escapeChar :: "char \<Rightarrow> string" where
  "escapeChar c =
     (if c = CHR 0x22 then [CHR 0x5C, CHR 0x22]
      else if c = CHR 0x5C then [CHR 0x5C, CHR 0x5C]
      else if c = CHR 0x08 then [CHR 0x5C, CHR ''b'']
      else if c = CHR 0x0C then [CHR 0x5C, CHR ''f'']
      else if c = CHR 0x0A then [CHR 0x5C, CHR ''n'']
      else if c = CHR 0x0D then [CHR 0x5C, CHR ''r'']
      else if c = CHR 0x09 then [CHR 0x5C, CHR ''t'']
      else if (of_char c :: nat) < 32
      then [CHR 0x5C, CHR ''u'', CHR ''0'', CHR ''0'',
            hexDigit (of_char c div 16), hexDigit (of_char c mod 16)]
      else [c])"

definition quoteJSON :: "string \<Rightarrow> string" where
  "quoteJSON s = CHR 0x22 # concat (map escapeChar s) @ [CHR 0x22]"

definition digitChar :: "nat \<Rightarrow> char" where
  "digitChar n = ''0123456789'' ! n"

fun showNat :: "nat \<Rightarrow> string" where
  "showNat n = (if n < 10 then [digitChar n] else showNat (n div 10) @ [digitChar (n mod 10)])"

declare showNat.simps [simp del]

definition showInt :: "int \<Rightarrow> string" where
  "showInt i = (if i < 0 then CHR ''-'' # showNat (nat (- i)) else showNat (nat i))"

definition spaces :: "nat \<Rightarrow> string" where
  "spaces k = replicate k CHR '' ''"

fun joinLines :: "string list \<Rightarrow> string" where
  "joinLines [] = []"
| "joinLines [l] = l"
| "joinLines (l # ls) = l @ '','' @ [CHR 0x0A] @ joinLines ls"

fun stringifyAt :: "nat \<Rightarrow> json \<Rightarrow> string" where
  "stringifyAt ind JNull = ''null''"
| "stringifyAt ind (JBool b) = (if b then ''true'' else ''false'')"
| "stringifyAt ind (JNumber i) = showInt i"
| "stringifyAt ind (JString s) = quoteJSON s"
| "stringifyAt ind (JArray xs) =
     (if xs = [] then ''[]''
      else ''['' @ [CHR 0x0A] @
           joinLines (map (\<lambda>x. spaces (ind + 2) @ stringifyAt (ind + 2) x) xs) @
           [CHR 0x0A] @ spaces ind @ '']'')"
| "stringifyAt ind (JObject ms) =
     (if ms = [] then ''{}''
      else ''{'' @ [CHR 0x0A] @
           joinLines (map (\<lambda>m. spaces (ind + 2) @ quoteJSON (fst m) @ '': '' @
                                stringifyAt (ind + 2) (snd m)) ms) @
           [CHR 0x0A] @ spaces ind @ ''}'')"

definition stringify :: "json \<Rightarrow> string" where
  "stringify v = stringifyAt 0 v"

text \<open>
  A task as \<^verbatim>\<open>JSON.stringify\<close> sees it: its defined properties; \<^verbatim>\<open>md5\<close> and \<^verbatim>\<open>progress\<close> are left
  out when they are undefined.
\<close>

definition status_string :: "status \<Rightarrow> string" where
  "status_string st =
     (case st of Pending \<Rightarrow> ''pending'' | Downloading \<Rightarrow> ''downloading''
      | Downloaded \<Rightarrow> ''downloaded'' | Failed \<Rightarrow> ''failed'' | Verified \<Rightarrow> ''verified'')"

definition toJSON :: "DownloadTask \<Rightarrow> json" where
  "toJSON t =
     JObject
       ([(''filename'', JString (filename t)), (''url'', JString (url t))] @
        (case md5 t of None \<Rightarrow> [] | Some m \<Rightarrow> [(''md5'', JString m)]) @
        [(''status'', JString (status_string (status t))),
         (''attempts'', JNumber (int (attempts t)))] @
        (case progress t of None \<Rightarrow> []
         | Some (b, tot) \<Rightarrow>
             [(''progress'', JObject [(''bytes'', JNumber b), (''total'', JNumber tot)])]))"


subsection \<open>JSON.parse\<close>

text \<open>
  \<^verbatim>\<open>JSON.parse\<close>: white space is skipped before a value and before every separator; a value is
  a literal, a string with its escapes, a number, an array or an object. A \<^verbatim>\<open>\u\<close> escape of a
  code unit above 255, and a number with a fraction or an exponent, do not occur in a
  snapshot of such tasks and are \<open>None\<close> here, as a syntax error is. The first argument of
  \<open>parseValue\<close> bounds the recursion: it drops by one with every opening bracket and every
  comma, so the length of the text is enough.
\<close>

definition isWs :: "char \<Rightarrow> bool" where
  "isWs c \<longleftrightarrow> c = CHR '' '' \<or> c = CHR 0x09 \<or> c = CHR 0x0A \<or> c = CHR 0x0D"

definition skipWs :: "string \<Rightarrow> string" where
  "skipWs s = dropWhile isWs s"

definition unhex :: "char \<Rightarrow> nat option" where
  "unhex c =
     (if isDigit c then Some (of_char c - 48)
      else if c \<in> set ''abcdef'' then Some (of_char c - 87)
      else if c \<in> set ''ABCDEF'' then Some (of_char c - 55)
      else None)"

definition consChar :: "char \<Rightarrow> (string \<times> string) option \<Rightarrow> (string \<times> string) option" where
  "consChar c r = (case r of None \<Rightarrow> None | Some (s, rest) \<Rightarrow> Some (c # s, rest))"

fun parseChars :: "string \<Rightarrow> (string \<times> string) option" where
  "parseChars [] = None"
| "parseChars (c # cs) =
     (if c = CHR 0x22 then Some ([], cs)
      else if c = CHR 0x5C then
        (case cs of
           [] \<Rightarrow> None
         | e # r \<Rightarrow>
             if e = CHR 0x22 then consChar (CHR 0x22) (parseChars r)
             else if e = CHR 0x5C then consChar (CHR 0x5C) (parseChars r)
             else if e = CHR ''/'' then consChar (CHR ''/'') (parseChars r)
             else if e = CHR ''b'' then consChar (CHR 0x08) (parseChars r)
             else if e = CHR ''f'' then consChar (CHR 0x0C) (parseChars r)
             else if e = CHR ''n'' then consChar (CHR 0x0A) (parseChars r)
             else if e = CHR ''r'' then consChar (CHR 0x0D) (parseChars r)
             else if e = CHR ''t'' then consChar (CHR 0x09) (parseChars r)
             else if e = CHR ''u'' then
               (case r of
                  h1 # h2 # h3 # h4 # r' \<Rightarrow>
                    (case (unhex h1, unhex h2, unhex h3, unhex h4) of
                       (Some a, Some b, Some c', Some d) \<Rightarrow>
                         let code = ((a * 16 + b) * 16 + c') * 16 + d
                         in if code < 256 then consChar (char_of code) (parseChars r')
                            else None
                     | _ \<Rightarrow> None)
                | _ \<Rightarrow> None)
             else None)
      else if (of_char c :: nat) < 32 then None
      else consChar c (parseChars cs))"



definition readNat :: "string \<Rightarrow> nat" where
  "readNat ds = foldl (\<lambda>a c. 10 * a + (of_char c - 48)) 0 ds"

definition parseNumber :: "string \<Rightarrow> (json \<times> string) option" where
  "parseNumber s =
     (let neg = (case s of [] \<Rightarrow> False | c # _ \<Rightarrow> c = CHR ''-'');
          s1 = (if neg then tl s else s);
          ds = takeWhile isDigit s1;
          r = dropWhile isDigit s1
      in if ds = [] \<or> (length ds > 1 \<and> hd ds = CHR ''0'') then None
         else if r \<noteq> [] \<and> hd r \<in> set ''.eE'' then None
         else Some (JNumber (if neg then - int (readNat ds) else int (readNat ds)), r))"

fun parseValue :: "nat \<Rightarrow> string \<Rightarrow> (json \<times> string) option"
  and parseElements :: "nat \<Rightarrow> string \<Rightarrow> (json list \<times> string) option"
  and parseMembers :: "nat \<Rightarrow> string \<Rightarrow> ((string \<times> json) list \<times> string) option" where
  "parseValue 0 s = None"
| "parseValue (Suc n) s =
     (case skipWs s of
        [] \<Rightarrow> None
      | c # r \<Rightarrow>
          if c = CHR ''n'' then map_option (Pair JNull) (stripPrefix ''ull'' r)
          else if c = CHR ''t'' then map_option (Pair (JBool True)) (stripPrefix ''rue'' r)
          else if c = CHR ''f'' then map_option (Pair (JBool False)) (stripPrefix ''alse'' r)
          else if c = CHR 0x22 then
            (case parseChars r of None \<Rightarrow> None | Some (str, r') \<Rightarrow> Some (JString str, r'))
          else if c = CHR ''['' then
            (case skipWs r of
               [] \<Rightarrow> None
             | c' # r' \<Rightarrow>
                 if c' = CHR '']'' then Some (JArray [], r')
                 else (case parseElements n r of None \<Rightarrow> None
                       | Some (xs, r'') \<Rightarrow> Some (JArray xs, r'')))
          else if c = CHR ''{'' then
            (case skipWs r of
               [] \<Rightarrow> None
             | c' # r' \<Rightarrow>
                 if c' = CHR ''}'' then Some (JObject [], r')
                 else (case parseMembers n r of None \<Rightarrow> None
                       | Some (ms, r'') \<Rightarrow> Some (JObject ms, r'')))
          else parseNumber (c # r))"
| "parseElements 0 s = None"
| "parseElements (Suc n) s =
     (case parseValue (Suc n) s of
        None \<Rightarrow> None
      | Some (x, r) \<Rightarrow>
          (case skipWs r of
             [] \<Rightarrow> None
           | c # r' \<Rightarrow>
               if c = CHR '','' then
                 (case parseElements n r' of None \<Rightarrow> None
                  | Some (xs, r'') \<Rightarrow> Some (x # xs, r''))
               else if c = CHR '']'' then Some ([x], r')
               else None))"
| "parseMembers 0 s = None"
| "parseMembers (Suc n) s =
     (case skipWs s of
        [] \<Rightarrow> None
      | q # r0 \<Rightarrow>
          if q \<noteq> CHR 0x22 then None
          else
            (case parseChars r0 of
               None \<Rightarrow> None
             | Some (k, r1) \<Rightarrow>
                 (case skipWs r1 of
                    [] \<Rightarrow> None
                  | col # r2 \<Rightarrow>
                      if col \<noteq> CHR '':'' then None
                      else
                        (case parseValue (Suc n) r2 of
                           None \<Rightarrow> None
                         | Some (v, r) \<Rightarrow>
                             (case skipWs r of
                                [] \<Rightarrow> None
                              | c # r' \<Rightarrow>
                                  if c = CHR '','' then
                                    (case parseMembers n r' of None \<Rightarrow> None
                                     | Some (ms, r'') \<Rightarrow> Some ((k, v) # ms, r''))
                                  else if c = CHR ''}'' then Some ([(k, v)], r')
                                  else None)))))"

definition JSON_parse :: "string \<Rightarrow> json option" where
  "JSON_parse text =
     (case parseValue (Suc (length text)) text of
        None \<Rightarrow> None
      | Some (v, rest) \<Rightarrow> if skipWs rest = [] then Some v else None)"

subsection \<open>Parsing what was printed\<close>

lemma skipWs_spaces [simp]: "skipWs (spaces k @ s) = skipWs s"
  by (induction k) (simp_all add: skipWs_def spaces_def isWs_def)

lemma skipWs_newline [simp]: "skipWs (CHR 0x0A # s) = skipWs s"
  by (simp add: skipWs_def isWs_def)

lemma skipWs_ws [simp]: "\<forall>c \<in> set pre. isWs c \<Longrightarrow> skipWs (pre @ s) = skipWs s"
  by (induction pre) (simp_all add: skipWs_def)

lemma skipWs_stop: "\<not> isWs c \<Longrightarrow> skipWs (c # s) = c # s"
  by (simp add: skipWs_def)

lemma consChar_Some [simp]: "consChar c (Some (s, rest)) = Some (c # s, rest)"
  by (simp add: consChar_def)

lemma hexDigit_unhex: "n < 16 \<Longrightarrow> unhex (hexDigit n) = Some n"
proof -
  have "\<forall>n \<in> set [0..<16]. unhex (hexDigit n) = Some n"
    by code_simp
  then show "n < 16 \<Longrightarrow> unhex (hexDigit n) = Some n"
    by simp
qed

lemma unhex_zero: "unhex CHR ''0'' = Some 0"
  by code_simp

lemma parseChars_escape:
  assumes "parseChars t = Some (s, rest)"
  shows "parseChars (escapeChar c @ t) = Some (c # s, rest)"
proof -
  consider "c = CHR 0x22" | "c = CHR 0x5C" | "c = CHR 0x08" | "c = CHR 0x0C" | "c = CHR 0x0A"
    | "c = CHR 0x0D" | "c = CHR 0x09"
    | "c \<notin> set [CHR 0x22, CHR 0x5C, CHR 0x08, CHR 0x0C, CHR 0x0A, CHR 0x0D, CHR 0x09]"
      "(of_char c :: nat) < 32"
    | "c \<noteq> CHR 0x22" "c \<noteq> CHR 0x5C" "\<not> (of_char c :: nat) < 32"
    by auto
  then show ?thesis
  proof cases
    case 8
    let ?n = "of_char c :: nat"
    have d: "?n div 16 < 16" "?n mod 16 < 16"
      using 8(2) by simp_all
    have "((0 * 16 + 0) * 16 + ?n div 16) * 16 + ?n mod 16 = ?n"
      by simp
    moreover have "?n < 256"
      using 8(2) by simp
    ultimately show ?thesis
      using 8 assms hexDigit_unhex [OF d(1)] hexDigit_unhex [OF d(2)]
      by (simp add: escapeChar_def unhex_zero Let_def)
  next
    case 9
    with assms show ?thesis
      by (auto simp: escapeChar_def)
  qed (use assms in \<open>simp_all add: escapeChar_def\<close>)
qed

lemma parseChars_quoted:
  "parseChars (concat (map escapeChar s) @ CHR 0x22 # rest) = Some (s, rest)"
  by (induction s) (simp_all add: parseChars_escape)

lemma digitChar_props:
  "n < 10 \<Longrightarrow> isDigit (digitChar n) \<and> (of_char (digitChar n) :: nat) - 48 = n \<and>
     (digitChar n = CHR ''0'' \<longleftrightarrow> n = 0)"
proof -
  have "\<forall>n \<in> set [0..<10]. isDigit (digitChar n) \<and> (of_char (digitChar n) :: nat) - 48 = n \<and>
     (digitChar n = CHR ''0'' \<longleftrightarrow> n = 0)"
    by code_simp
  then show "n < 10 \<Longrightarrow> isDigit (digitChar n) \<and> (of_char (digitChar n) :: nat) - 48 = n \<and>
     (digitChar n = CHR ''0'' \<longleftrightarrow> n = 0)"
    by simp
qed

lemma showNat_digits: "list_all isDigit (showNat n)"
  by (induction n rule: showNat.induct) (subst showNat.simps, simp add: digitChar_props)

lemma showNat_nonempty: "showNat n \<noteq> []"
  by (subst showNat.simps) simp

lemma readNat_snoc: "readNat (ds @ [c]) = 10 * readNat ds + (of_char c - 48)"
  by (simp add: readNat_def)

lemma readNat_showNat: "readNat (showNat n) = n"
proof (induction n rule: showNat.induct)
  case (1 n)
  show ?case
  proof (cases "n < 10")
    case True
    then show ?thesis
      by (subst showNat.simps) (simp add: readNat_def digitChar_props)
  next
    case False
    with 1 show ?thesis
      by (subst showNat.simps) (simp add: readNat_snoc digitChar_props)
  qed
qed

lemma showNat_hd: "hd (showNat n) = CHR ''0'' \<Longrightarrow> n < 10"
proof (induction n rule: showNat.induct)
  case (1 n)
  show ?case
  proof (rule ccontr)
    assume f: "\<not> n < 10"
    then have "showNat n = showNat (n div 10) @ [digitChar (n mod 10)]"
      by (subst showNat.simps) simp
    with 1(2) showNat_nonempty [of "n div 10"] have "hd (showNat (n div 10)) = CHR ''0''"
      by simp
    with 1(1) f have "n div 10 < 10"
      by simp
    then have "showNat (n div 10) = [digitChar (n div 10)]"
      by (subst showNat.simps) simp
    with \<open>hd (showNat (n div 10)) = CHR ''0''\<close> \<open>n div 10 < 10\<close> have "n div 10 = 0"
      by (simp add: digitChar_props)
    with f show False
      by simp
  qed
qed

lemma showNat_length: "1 < length (showNat n) \<Longrightarrow> \<not> n < 10"
  by (subst (asm) showNat.simps) (auto split: if_splits)

definition numberEnd :: "string \<Rightarrow> bool" where
  "numberEnd rest \<longleftrightarrow> rest = [] \<or> \<not> isDigit (hd rest) \<and> hd rest \<notin> set ''.eE''"

lemma take_drop_digits:
  assumes "list_all isDigit ds" "numberEnd rest"
  shows "takeWhile isDigit (ds @ rest) = ds" "dropWhile isDigit (ds @ rest) = rest"
proof -
  from assms(2) have "takeWhile isDigit rest = []"
    by (cases rest) (auto simp: numberEnd_def)
  then show "takeWhile isDigit (ds @ rest) = ds" "dropWhile isDigit (ds @ rest) = rest"
    using assms(1) by (simp_all add: list_all_iff takeWhile_eq_Nil_iff dropWhile_eq_self_iff)
qed

lemma parseNumber_showInt:
  assumes "numberEnd rest"
  shows "parseNumber (showInt i @ rest) = Some (JNumber i, rest)"
proof -
  let ?ds = "showNat (nat \<bar>i\<bar>)"
  note td = take_drop_digits [OF showNat_digits assms]
  have nz: "\<not> (1 < length ?ds \<and> hd ?ds = CHR ''0'')"
    using showNat_hd showNat_length by blast
  have nm: "hd ?ds \<noteq> CHR ''-''"
    using showNat_digits [of "nat \<bar>i\<bar>"] showNat_nonempty [of "nat \<bar>i\<bar>"]
    by (cases ?ds) (auto simp: isDigit_def)
  have re: "\<not> (rest \<noteq> [] \<and> hd rest \<in> set ''.eE'')"
    using assms by (auto simp: numberEnd_def)
  show ?thesis
  proof (cases "i < 0")
    case True
    then have s: "showInt i @ rest = CHR ''-'' # ?ds @ rest" and a: "nat (- i) = nat \<bar>i\<bar>"
      by (simp_all add: showInt_def)
    show ?thesis
      unfolding s parseNumber_def using True nz re showNat_nonempty [of "nat \<bar>i\<bar>"]
      by (simp add: Let_def td readNat_showNat)
  next
    case False
    then have s: "showInt i @ rest = ?ds @ rest"
      by (simp add: showInt_def)
    obtain d ds' where ds: "?ds = d # ds'"
      using showNat_nonempty [of "nat \<bar>i\<bar>"] by (cases ?ds) auto
    with nm have "d \<noteq> CHR ''-''"
      by simp
    then have "(case ?ds @ rest of [] \<Rightarrow> False | c # _ \<Rightarrow> c = CHR ''-'') = False"
      by (simp add: ds)
    then show ?thesis
      unfolding s parseNumber_def using False nz re showNat_nonempty [of "nat \<bar>i\<bar>"]
      by (simp add: Let_def td readNat_showNat)
  qed
qed

lemma showInt_head: "\<exists>c t. showInt i = c # t \<and> (c = CHR ''-'' \<or> isDigit c)"
proof -
  obtain d ds where "showNat (nat \<bar>i\<bar>) = d # ds"
    using showNat_nonempty [of "nat \<bar>i\<bar>"] by (cases "showNat (nat \<bar>i\<bar>)") auto
  moreover from this showNat_digits [of "nat \<bar>i\<bar>"] have "isDigit d"
    by simp
  moreover have "nat (- i) = nat \<bar>i\<bar>" if "i < 0"
    using that by simp
  ultimately show ?thesis
    by (auto simp: showInt_def)
qed

lemma numberEnd_simps [simp]:
  "numberEnd (CHR 0x0A # s)" "numberEnd (CHR '','' # s)" "numberEnd []"
  by (simp_all add: numberEnd_def isDigit_def)

lemma isWs_simps [simp]:
  "isWs CHR '' ''" "isWs CHR 0x0A" "\<not> isWs CHR '',''" "\<not> isWs CHR '']''" "\<not> isWs CHR ''}''"
  "\<not> isWs CHR '':''" "\<not> isWs CHR 0x22" "\<not> isWs CHR ''[''" "\<not> isWs CHR ''{''"
  "\<not> isWs CHR ''n''" "\<not> isWs CHR ''t''" "\<not> isWs CHR ''f''" "\<not> isWs CHR ''-''"
  by (simp_all add: isWs_def)

lemma isWs_spaces [simp]: "c \<in> set (spaces k) \<Longrightarrow> isWs c"
  by (simp add: spaces_def)

lemma isDigit_not_ws: "isDigit c \<Longrightarrow> \<not> isWs c"
  by (auto simp: isDigit_def isWs_def)

lemma isDigit_not_special:
  "isDigit c \<Longrightarrow> c \<notin> set [CHR ''n'', CHR ''t'', CHR ''f'', CHR 0x22, CHR ''['', CHR ''{'']"
  by (auto simp: isDigit_def)

lemma parseElements_lines:
  assumes IH: "\<And>x pre ind rest n. x \<in> set xs \<Longrightarrow> \<forall>c \<in> set pre. isWs c \<Longrightarrow>
      length (pre @ stringifyAt ind x @ rest) \<le> n \<Longrightarrow> numberEnd rest \<Longrightarrow>
      parseValue n (pre @ stringifyAt ind x @ rest) = Some (x, rest)"
    and ne: "xs \<noteq> []"
    and ws: "\<forall>c \<in> set pre. isWs c"
    and len: "length (pre @ joinLines (map (\<lambda>x. spaces k @ stringifyAt k x) xs) @
        CHR 0x0A # spaces j @ CHR '']'' # rest) \<le> n"
  shows "parseElements n (pre @ joinLines (map (\<lambda>x. spaces k @ stringifyAt k x) xs) @
      CHR 0x0A # spaces j @ CHR '']'' # rest) = Some (xs, rest)"
  using ne IH ws len
proof (induction xs arbitrary: pre n rule: list_nonempty_induct)
  case (single x)
  let ?tail = "CHR 0x0A # spaces j @ CHR '']'' # rest"
  from single(3) obtain m where n: "n = Suc m"
    by (cases n) auto
  have v: "parseValue (Suc m) ((pre @ spaces k) @ stringifyAt k x @ ?tail) = Some (x, ?tail)"
    by (rule single(1)) (use single(2,3) n in auto)
  show ?case
    using v by (simp add: n skipWs_stop)
next
  case (cons x xs)
  let ?tail = "CHR 0x0A # spaces j @ CHR '']'' # rest"
  let ?more = "joinLines (map (\<lambda>x. spaces k @ stringifyAt k x) xs) @ ?tail"
  from cons(1) obtain y ys where xs: "xs = y # ys"
    by (cases xs) auto
  have j: "joinLines (map (\<lambda>x. spaces k @ stringifyAt k x) (x # xs)) @ ?tail =
      spaces k @ stringifyAt k x @ CHR '','' # CHR 0x0A # ?more"
    by (simp add: xs)
  from cons(5) obtain m where n: "n = Suc m"
    by (cases n) auto
  have v: "parseValue (Suc m) ((pre @ spaces k) @ stringifyAt k x @ CHR '','' # CHR 0x0A # ?more) =
      Some (x, CHR '','' # CHR 0x0A # ?more)"
    by (rule cons(3)) (use cons(4,5) n j in auto)
  have "parseElements m ([CHR 0x0A] @ ?more) = Some (xs, rest)"
  proof (rule cons(2))
    show "length ([CHR 0x0A] @ ?more) \<le> m"
      using cons(5) unfolding j n by simp
  qed (use cons(3) in auto)
  then show ?case
    unfolding j using v by (simp add: n skipWs_stop)
qed

lemma parseMembers_lines:
  assumes IH: "\<And>k x pre ind rest n. (k, x) \<in> set ms \<Longrightarrow> \<forall>c \<in> set pre. isWs c \<Longrightarrow>
      length (pre @ stringifyAt ind x @ rest) \<le> n \<Longrightarrow> numberEnd rest \<Longrightarrow>
      parseValue n (pre @ stringifyAt ind x @ rest) = Some (x, rest)"
    and ne: "ms \<noteq> []"
    and ws: "\<forall>c \<in> set pre. isWs c"
    and len: "length (pre @ joinLines (map (\<lambda>m. spaces k @ quoteJSON (fst m) @ '': '' @
        stringifyAt k (snd m)) ms) @ CHR 0x0A # spaces j @ CHR ''}'' # rest) \<le> n"
  shows "parseMembers n (pre @ joinLines (map (\<lambda>m. spaces k @ quoteJSON (fst m) @ '': '' @
        stringifyAt k (snd m)) ms) @ CHR 0x0A # spaces j @ CHR ''}'' # rest) = Some (ms, rest)"
  using ne IH ws len
proof (induction ms arbitrary: pre n rule: list_nonempty_induct)
  case (single kv)
  obtain key x where kv: "kv = (key, x)"
    by (cases kv)
  let ?tail = "CHR 0x0A # spaces j @ CHR ''}'' # rest"
  from single(3) obtain m where n: "n = Suc m"
    by (cases n) auto
  have t: "pre @ joinLines (map (\<lambda>m. spaces k @ quoteJSON (fst m) @ '': '' @
        stringifyAt k (snd m)) [kv]) @ ?tail =
      (pre @ spaces k) @ CHR 0x22 # concat (map escapeChar key) @
        CHR 0x22 # CHR '':'' # [CHR '' ''] @ stringifyAt k x @ ?tail"
    by (simp add: kv quoteJSON_def)
  have v: "parseValue (Suc m) ([CHR '' ''] @ stringifyAt k x @ ?tail) = Some (x, ?tail)"
    by (rule single(1)) (use single(3) n t kv in auto)
  show ?case
    unfolding t using v single(2)
    by (simp add: n skipWs_stop parseChars_quoted kv del: parseValue.simps)
next
  case (cons kv ms)
  obtain key x where kv: "kv = (key, x)"
    by (cases kv)
  let ?tail = "CHR 0x0A # spaces j @ CHR ''}'' # rest"
  let ?more = "joinLines (map (\<lambda>m. spaces k @ quoteJSON (fst m) @ '': '' @
        stringifyAt k (snd m)) ms) @ ?tail"
  from cons(1) obtain y ys where ms: "ms = y # ys"
    by (cases ms) auto
  have t: "pre @ joinLines (map (\<lambda>m. spaces k @ quoteJSON (fst m) @ '': '' @
        stringifyAt k (snd m)) (kv # ms)) @ ?tail =
      (pre @ spaces k) @ CHR 0x22 # concat (map escapeChar key) @
        CHR 0x22 # CHR '':'' # [CHR '' ''] @ stringifyAt k x @ CHR '','' # CHR 0x0A # ?more"
    by (simp add: kv ms quoteJSON_def)
  from cons(5) obtain m where n: "n = Suc m"
    by (cases n) auto
  have v: "parseValue (Suc m) ([CHR '' ''] @ stringifyAt k x @ CHR '','' # CHR 0x0A # ?more) =
      Some (x, CHR '','' # CHR 0x0A # ?more)"
    by (rule cons(3)) (use cons(5) n t kv in auto)
  have "parseMembers m ([CHR 0x0A] @ ?more) = Some (ms, rest)"
  proof (rule cons(2))
    show "length ([CHR 0x0A] @ ?more) \<le> m"
      using cons(5) unfolding t n by simp
    show "\<forall>c \<in> set [CHR 0x0A]. isWs c"
      by simp
    fix k' x' pre' ind' rest' n'
    assume "(k', x') \<in> set ms" "\<forall>c \<in> set pre'. isWs c"
      "length (pre' @ stringifyAt ind' x' @ rest') \<le> n'" "numberEnd rest'"
    then show "parseValue n' (pre' @ stringifyAt ind' x' @ rest') = Some (x', rest')"
      by (intro cons(3) [of k']) simp_all
  qed
  then show ?case
    unfolding t using v cons(4)
    by (simp add: n skipWs_stop parseChars_quoted kv del: parseValue.simps)
qed

lemma showInt_head2: "\<exists>c t. showInt i = c # t \<and> \<not> isWs c \<and> c \<noteq> CHR '']''"
proof -
  obtain c t where c: "showInt i = c # t" "c = CHR ''-'' \<or> isDigit c"
    using showInt_head by blast
  from c(2) have "\<not> isWs c"
    using isDigit_not_ws [of c] by auto
  moreover from c(2) have "c \<noteq> CHR '']''"
    by (auto simp: isDigit_def)
  ultimately show ?thesis
    using c(1) by blast
qed

lemma stringifyAt_head:
  "\<exists>c t. stringifyAt ind v = c # t \<and> \<not> isWs c \<and> c \<noteq> CHR '']''"
proof (cases v)
  case JNull
  then show ?thesis by simp
next
  case (JBool b)
  then show ?thesis by (cases b) simp_all
next
  case (JNumber i)
  with showInt_head2 [of i] show ?thesis
    by simp
next
  case (JString s)
  then show ?thesis by (simp add: quoteJSON_def)
next
  case (JArray xs)
  show ?thesis
  proof (cases "xs = []")
    case True
    then show ?thesis
      unfolding JArray by simp
  next
    case False
    then have "stringifyAt ind (JArray xs) = CHR ''['' # CHR 0x0A #
        joinLines (map (\<lambda>x. spaces (ind + 2) @ stringifyAt (ind + 2) x) xs) @
        [CHR 0x0A] @ spaces ind @ '']''"
      by simp
    then show ?thesis
      unfolding JArray by (intro exI conjI) (assumption, simp_all)
  qed
next
  case (JObject ms)
  show ?thesis
  proof (cases "ms = []")
    case True
    then show ?thesis
      unfolding JObject by simp
  next
    case False
    then have "stringifyAt ind (JObject ms) = CHR ''{'' # CHR 0x0A #
        joinLines (map (\<lambda>m. spaces (ind + 2) @ quoteJSON (fst m) @ '': '' @
          stringifyAt (ind + 2) (snd m)) ms) @ [CHR 0x0A] @ spaces ind @ ''}''"
      by simp
    then show ?thesis
      unfolding JObject by (intro exI conjI) (assumption, simp_all)
  qed
qed

lemma parseValue_stringifyAt:
  assumes "\<forall>c \<in> set pre. isWs c" "length (pre @ stringifyAt ind v @ rest) \<le> n"
    "numberEnd rest"
  shows "parseValue n (pre @ stringifyAt ind v @ rest) = Some (v, rest)"
  using assms
proof (induction v arbitrary: pre ind rest n)
  case JNull
  then obtain m where "n = Suc m"
    by (cases n) auto
  with JNull show ?case
    by (simp add: skipWs_stop)
next
  case (JBool b)
  then obtain m where "n = Suc m"
    by (cases n; cases b) auto
  with JBool show ?case
    by (simp add: skipWs_stop)
next
  case (JNumber i)
  obtain c t where c: "showInt i = c # t" "c = CHR ''-'' \<or> isDigit c"
    using showInt_head by blast
  with JNumber obtain m where n: "n = Suc m"
    by (cases n) auto
  from c(2) have "\<not> isWs c"
    and "c \<notin> set [CHR ''n'', CHR ''t'', CHR ''f'', CHR 0x22, CHR ''['', CHR ''{'']"
    using isDigit_not_ws [of c] isDigit_not_special [of c] by auto
  moreover have "parseNumber (c # t @ rest) = Some (JNumber i, rest)"
    using parseNumber_showInt [OF JNumber(3), of i] c(1) by simp
  ultimately show ?case
    using JNumber(1) by (simp add: n c(1) skipWs_stop)
next
  case (JString s)
  then obtain m where "n = Suc m"
    by (cases n) (auto simp: quoteJSON_def)
  with JString show ?case
    by (simp add: skipWs_stop quoteJSON_def parseChars_quoted)
next
  case (JArray xs)
  then obtain m where n: "n = Suc m"
    by (cases n) (auto split: if_splits)
  show ?case
  proof (cases "xs = []")
    case True
    with JArray(2) show ?thesis
      by (simp add: n skipWs_stop)
  next
    case False
    let ?lines = "map (\<lambda>x. spaces (ind + 2) @ stringifyAt (ind + 2) x) xs"
    let ?body = "joinLines ?lines @ CHR 0x0A # spaces ind @ CHR '']'' # rest"
    have t: "pre @ stringifyAt ind (JArray xs) @ rest = pre @ CHR ''['' # CHR 0x0A # ?body"
      using False by simp
    obtain c0 t0 where h: "stringifyAt (ind + 2) (hd xs) = c0 # t0" "\<not> isWs c0" "c0 \<noteq> CHR '']''"
      using stringifyAt_head by blast
    have "\<exists>w. joinLines ?lines = spaces (ind + 2) @ c0 # w"
    proof (cases xs)
      case Nil
      with False show ?thesis by simp
    next
      case (Cons a as)
      with h(1) show ?thesis
        by (cases as) auto
    qed
    then obtain w where "joinLines ?lines = spaces (ind + 2) @ c0 # w"
      by blast
    then have "\<exists>u. skipWs ?body = c0 # u"
      using h(2) by (simp add: skipWs_stop)
    then obtain u where u: "skipWs ?body = c0 # u"
      by blast
    have e: "parseElements m ([CHR 0x0A] @ ?body) = Some (xs, rest)"
    proof (rule parseElements_lines [OF _ False])
      show "length ([CHR 0x0A] @ ?body) \<le> m"
        using JArray(3) unfolding t n by simp
      show "\<forall>c \<in> set [CHR 0x0A]. isWs c"
        by simp
      fix x pre' ind' rest' n'
      assume "x \<in> set xs" "\<forall>c \<in> set pre'. isWs c"
        "length (pre' @ stringifyAt ind' x @ rest') \<le> n'" "numberEnd rest'"
      then show "parseValue n' (pre' @ stringifyAt ind' x @ rest') = Some (x, rest')"
        by (intro JArray(1)) simp_all
    qed
    show ?thesis
      unfolding t using JArray(2) u h(3) e
      by (simp add: n skipWs_stop del: parseElements.simps)
  qed
next
  case (JObject ms)
  then obtain m where n: "n = Suc m"
    by (cases n) (auto split: if_splits)
  show ?case
  proof (cases "ms = []")
    case True
    with JObject(2) show ?thesis
      by (simp add: n skipWs_stop)
  next
    case False
    let ?lines = "map (\<lambda>m. spaces (ind + 2) @ quoteJSON (fst m) @ '': '' @
        stringifyAt (ind + 2) (snd m)) ms"
    let ?body = "joinLines ?lines @ CHR 0x0A # spaces ind @ CHR ''}'' # rest"
    have t: "pre @ stringifyAt ind (JObject ms) @ rest = pre @ CHR ''{'' # CHR 0x0A # ?body"
      using False by simp
    have "\<exists>w. joinLines ?lines = spaces (ind + 2) @ CHR 0x22 # w"
    proof (cases ms)
      case Nil
      with False show ?thesis by simp
    next
      case (Cons a as)
      then show ?thesis
        by (cases as) (auto simp: quoteJSON_def)
    qed
    then obtain w where "joinLines ?lines = spaces (ind + 2) @ CHR 0x22 # w"
      by blast
    then have u: "skipWs ?body = CHR 0x22 # w @ CHR 0x0A # spaces ind @ CHR ''}'' # rest"
      by (simp add: skipWs_stop)
    have e: "parseMembers m ([CHR 0x0A] @ ?body) = Some (ms, rest)"
    proof (rule parseMembers_lines [OF _ False])
      show "length ([CHR 0x0A] @ ?body) \<le> m"
        using JObject(3) unfolding t n by simp
      show "\<forall>c \<in> set [CHR 0x0A]. isWs c"
        by simp
      fix k x pre' ind' rest' n'
      assume "(k, x) \<in> set ms" "\<forall>c \<in> set pre'. isWs c"
        "length (pre' @ stringifyAt ind' x @ rest') \<le> n'" "numberEnd rest'"
      then show "parseValue n' (pre' @ stringifyAt ind' x @ rest') = Some (x, rest')"
        by (intro JObject(1) [of "(k, x)"]) simp_all
    qed
    show ?thesis
      unfolding t using JObject(2) u e
      by (simp add: n skipWs_stop del: parseMembers.simps)
  qed
qed

lemma JSON_parse_stringify: "JSON_parse (stringify v) = Some v"
proof -
  have "parseValue (Suc (length (stringify v))) ([] @ stringifyAt 0 v @ []) = Some (v, [])"
    by (rule parseValue_stringifyAt) (simp_all add: stringify_def)
  then show ?thesis
    by (simp add: JSON_parse_def stringify_def skipWs_def)
qed

subsection \<open>saveProgress and loadProgress\<close>

text \<open>
  The state of the file system is the text of \<^verbatim>\<open>PROGRESS_FILE\<close>, or \<open>None\<close> when the file does
  not exist. \<^verbatim>\<open>saveProgress\<close> writes \<^verbatim>\<open>JSON.stringify(tasks, null, 2)\<close>; \<^verbatim>\<open>loadProgress\<close> returns
  the parsed text, and the empty array when the file does not exist or cannot be parsed.
\<close>

definition saveProgress :: "DownloadTask list \<Rightarrow> string option \<Rightarrow> string option" where
  "saveProgress ts file = Some (stringify (JArray (map toJSON ts)))"

definition loadProgress :: "string option \<Rightarrow> json" where
  "loadProgress file =
     (case file of
        None \<Rightarrow> JArray []
      | Some data \<Rightarrow> (case JSON_parse data of None \<Rightarrow> JArray [] | Some v \<Rightarrow> v))"

text \<open>
  \<^verbatim>\<open>loadProgress\<close> returns the parsed value as \<^verbatim>\<open>DownloadTask[]\<close> without a check. \<open>elements\<close>
  are the elements of an array, \<open>getProp\<close> reads a property of an object, and \<open>fromJSON\<close> reads
  an object as a task.
\<close>

definition elements :: "json \<Rightarrow> json list" where
  "elements v = (case v of JArray xs \<Rightarrow> xs | _ \<Rightarrow> [])"

definition getProp :: "json \<Rightarrow> string \<Rightarrow> json option" where
  "getProp v k = (case v of JObject ms \<Rightarrow> map_of ms k | _ \<Rightarrow> None)"

definition status_of_string :: "string \<Rightarrow> status option" where
  "status_of_string s =
     (if s = ''pending'' then Some Pending
      else if s = ''downloading'' then Some Downloading
      else if s = ''downloaded'' then Some Downloaded
      else if s = ''failed'' then Some Failed
      else if s = ''verified'' then Some Verified
      else None)"

definition fromJSON :: "json \<Rightarrow> DownloadTask option" where
  "fromJSON v =
     (case (getProp v ''filename'', getProp v ''url'', getProp v ''status'', getProp v ''attempts'') of
        (Some (JString f), Some (JString u), Some (JString s), Some (JNumber a)) \<Rightarrow>
          (case status_of_string s of
             None \<Rightarrow> None
           | Some st \<Rightarrow>
               if a < 0 then None
               else Some
                 \<lparr>filename = f, url = u,
                  md5 = (case getProp v ''md5'' of Some (JString m) \<Rightarrow> Some m | _ \<Rightarrow> None),
                  status = st, attempts = nat a,
                  progress =
                    (case getProp v ''progress'' of
                       None \<Rightarrow> None
                     | Some p \<Rightarrow>
                         (case (getProp p ''bytes'', getProp p ''total'') of
                            (Some (JNumber b), Some (JNumber tot)) \<Rightarrow> Some (b, tot)
                          | _ \<Rightarrow> None))\<rparr>)
      | _ \<Rightarrow> None)"

lemma status_of_string_status_string: "status_of_string (status_string st) = Some st"
  by (cases st) (simp_all add: status_of_string_def status_string_def)

lemma fromJSON_toJSON: "fromJSON (toJSON t) = Some t"
proof -
  have "fromJSON (toJSON t) =
      Some \<lparr>filename = filename t, url = url t, md5 = md5 t, status = status t,
            attempts = attempts t, progress = progress t\<rparr>"
    by (cases "md5 t"; cases "progress t")
      (auto simp: fromJSON_def toJSON_def getProp_def status_of_string_status_string)
  then show ?thesis
    by simp
qed

lemma getProp_toJSON:
  "getProp (toJSON t) ''filename'' = Some (JString (filename t))"
  "getProp (toJSON t) ''status'' = Some (JString (status_string (status t)))"
  "getProp (toJSON t) ''attempts'' = Some (JNumber (int (attempts t)))"
  by (cases "md5 t"; simp add: toJSON_def getProp_def)+

text \<open>
  Claim C8. After \<^verbatim>\<open>saveProgress(tasks)\<close>, whatever the file held before, \<^verbatim>\<open>loadProgress\<close> returns
  an array with one object for every task, in the same order; the objects have the
  filename, the status and the attempts of the tasks, and read as tasks they are the tasks
  that were saved.
\<close>

theorem save_load_roundtrip:
  "loadProgress (saveProgress ts file) = JArray (map toJSON ts) \<and>
   map (\<lambda>v. getProp v ''filename'') (elements (loadProgress (saveProgress ts file))) =
     map (\<lambda>t. Some (JString (filename t))) ts \<and>
   map (\<lambda>v. getProp v ''status'') (elements (loadProgress (saveProgress ts file))) =
     map (\<lambda>t. Some (JString (status_string (status t)))) ts \<and>
   map (\<lambda>v. getProp v ''attempts'') (elements (loadProgress (saveProgress ts file))) =
     map (\<lambda>t. Some (JNumber (int (attempts t)))) ts \<and>
   map fromJSON (elements (loadProgress (saveProgress ts file))) = map Some ts"
proof -
  have l: "loadProgress (saveProgress ts file) = JArray (map toJSON ts)"
    by (simp add: loadProgress_def saveProgress_def JSON_parse_stringify)
  show ?thesis
    unfolding l by (simp add: elements_def getProp_toJSON fromJSON_toJSON comp_def)
qed

end
